theory Spec2Isabelle
  imports Complex_Main "HOL-Library.Monad_Syntax"
begin

section \<open>The d2q9-bgk lattice Boltzmann kernel (src/d2q9-bgk.c)\<close>

text \<open>
  Conventions of the embedding.
  \<^item> A C \<open>float\<close> is a \<open>real\<close>: arithmetic is exact, every value is finite. The only
    float operation whose IEEE result can leave the finite numbers without overflow is
    a division by zero (infinity or NaN): every division by a value that is not a
    non-zero literal goes through \<open>fdiv\<close>, which answers \<open>None\<close> there.
  \<^item> A C \<open>int\<close> is an \<open>int\<close>; the index arithmetic of the source stays below
    \<open>nx * ny\<close>, so it agrees with C as long as \<open>nx * ny \<le> INT_MAX\<close> (part of
    \<open>wf_state\<close>). The operands of \<open>%\<close> are never negative, where C's \<open>%\<close> and
    HOL's \<open>mod\<close> agree.
  \<^item> The memory reachable from the three pointers \<open>cells\<close>, \<open>tmp_cells\<close> and
    \<open>obstacles\<close> is the record \<open>t_state\<close>; each array is a list. The arrays are
    separate allocations (\<open>initialise\<close>), and \<open>timestep\<close> declares its two grids
    \<open>restrict\<close>, so no two of them alias.
  \<^item> Functions return \<open>'a option\<close>. \<open>None\<close> says that the C program reads or writes
    an array out of bounds (undefined behaviour), or that it computes a value that
    is not a finite number and stores it; the model does not follow the program
    there. A returned \<open>float\<close> is a \<open>real option\<close> of its own, \<open>None\<close> again
    standing for "not a finite number".
  \<^item> The OpenMP pragmas are dropped: the loops run in source order. An iteration reads
    the current grid and the mask only and writes the scratch grid at its own index only
    (\<open>row_index_inj\<close>), and over the reals the two sums of the reduction do not depend on
    the order of the additions.
  \<^item> Rounding and overflow are the subject of a second embedding, in binary32 arithmetic
    (section "The kernel in binary32 arithmetic"); C6 and C7, which depend on them, are
    stated there.
\<close>

subsection \<open>Data\<close>

record t_param =
  nx :: int
  ny :: int
  maxIters :: int
  reynolds_dim :: int
  density :: real
  accel :: real
  omega :: real

record t_speeds =
  s0 :: "real list"
  s1 :: "real list"
  s2 :: "real list"
  s3 :: "real list"
  s4 :: "real list"
  s5 :: "real list"
  s6 :: "real list"
  s7 :: "real list"
  s8 :: "real list"

record t_state =
  cells :: t_speeds
  tmp_cells :: t_speeds
  obstacles :: "int list"

text \<open>The locals \<open>tot_cells\<close> and \<open>tot_u\<close> of \<open>timestep\<close> and \<open>av_velocity\<close>,
  together with the memory.\<close>

record t_loop =
  mem :: t_state
  tot_cells :: int
  tot_u :: real

subsection \<open>Array access and float division\<close>

definition rd :: "'a list \<Rightarrow> int \<Rightarrow> 'a option" where
  "rd xs i = (if 0 \<le> i \<and> i < int (length xs) then Some (xs ! nat i) else None)"

definition wr :: "'a list \<Rightarrow> int \<Rightarrow> 'a \<Rightarrow> 'a list option" where
  "wr xs i v = (if 0 \<le> i \<and> i < int (length xs) then Some (xs[nat i := v]) else None)"

definition fdiv :: "real \<Rightarrow> real \<Rightarrow> real option" where
  "fdiv a b = (if b = 0 then None else Some (a / b))"

subsection \<open>accelerate_flow (lines 344-371)\<close>

text \<open>The body of the loop for column \<open>ii\<close>. The guard is a chain of \<open>&&\<close>: an operand is
  read only when the operands before it are true.\<close>

definition accelerate_cell :: "t_param \<Rightarrow> int \<Rightarrow> t_state \<Rightarrow> t_state option" where
  "accelerate_cell p ii m =
    (let w1 = density p * accel p / 9;
         w2 = density p * accel p / 36;
         jj = ny p - 2;
         k = ii + jj * nx p;
         c = cells m
     in do {
       ob \<leftarrow> rd (obstacles m) k;
       if ob \<noteq> 0 then Some m else do {
       c3 \<leftarrow> rd (s3 c) k;
       if \<not> (c3 - w1 > 0) then Some m else do {
       c6 \<leftarrow> rd (s6 c) k;
       if \<not> (c6 - w2 > 0) then Some m else do {
       c7 \<leftarrow> rd (s7 c) k;
       if \<not> (c7 - w2 > 0) then Some m else do {
         c1 \<leftarrow> rd (s1 c) k;
         n1 \<leftarrow> wr (s1 c) k (c1 + w1);
         c5 \<leftarrow> rd (s5 c) k;
         n5 \<leftarrow> wr (s5 c) k (c5 + w2);
         c8 \<leftarrow> rd (s8 c) k;
         n8 \<leftarrow> wr (s8 c) k (c8 + w2);
         n3 \<leftarrow> wr (s3 c) k (c3 - w1);
         n6 \<leftarrow> wr (s6 c) k (c6 - w2);
         n7 \<leftarrow> wr (s7 c) k (c7 - w2);
         Some (m\<lparr>cells := c\<lparr>s1 := n1, s5 := n5, s8 := n8, s3 := n3, s6 := n6, s7 := n7\<rparr>\<rparr>)
       }}}}
     })"

declare Option.bind_cong [fundef_cong]

function accelerate_loop :: "t_param \<Rightarrow> int \<Rightarrow> t_state \<Rightarrow> t_state option" where
  "accelerate_loop p ii m =
    (if ii < nx p
     then do { m' \<leftarrow> accelerate_cell p ii m; accelerate_loop p (ii + 1) m' }
     else Some m)"
  by pat_completeness auto
termination
  by (relation "measure (\<lambda>(p, ii, m). nat (nx p - ii))") auto

declare accelerate_loop.simps [simp del]

definition accelerate_flow :: "t_param \<Rightarrow> t_state \<Rightarrow> t_state option" where
  "accelerate_flow p m = accelerate_loop p 0 m"

subsection \<open>timestep (lines 213-342)\<close>

text \<open>Lines 247-264: the nine values \<open>prop0 .. prop8\<close> streamed into cell \<open>(ii, jj)\<close>,
  as the list \<open>[prop0, .., prop8]\<close>.\<close>

definition propagate_cell :: "t_param \<Rightarrow> t_speeds \<Rightarrow> int \<Rightarrow> int \<Rightarrow> real list option" where
  "propagate_cell p c jj ii =
    (let y_s = (if jj = 0 then jj + ny p - 1 else jj - 1);
         y_n = (jj + 1) mod ny p;
         x_e = (ii + 1) mod nx p;
         x_w = (if ii = 0 then ii + nx p - 1 else ii - 1)
     in do {
       prop0 \<leftarrow> rd (s0 c) (ii + jj * nx p);
       prop1 \<leftarrow> rd (s1 c) (x_w + jj * nx p);
       prop2 \<leftarrow> rd (s2 c) (ii + y_s * nx p);
       prop3 \<leftarrow> rd (s3 c) (x_e + jj * nx p);
       prop4 \<leftarrow> rd (s4 c) (ii + y_n * nx p);
       prop5 \<leftarrow> rd (s5 c) (x_w + y_s * nx p);
       prop6 \<leftarrow> rd (s6 c) (x_e + y_s * nx p);
       prop7 \<leftarrow> rd (s7 c) (x_e + y_n * nx p);
       prop8 \<leftarrow> rd (s8 c) (x_w + y_n * nx p);
       Some [prop0, prop1, prop2, prop3, prop4, prop5, prop6, prop7, prop8]
     })"

text \<open>Lines 268-284: the obstacle branch. It assigns \<open>s1 .. s8\<close> of the scratch grid;
  there is no assignment to \<open>s0\<close>.\<close>

definition rebound_cell :: "t_speeds \<Rightarrow> int \<Rightarrow> real list \<Rightarrow> t_speeds option" where
  "rebound_cell t k pr = do {
     n1 \<leftarrow> wr (s1 t) k (pr ! 3);
     n2 \<leftarrow> wr (s2 t) k (pr ! 4);
     n3 \<leftarrow> wr (s3 t) k (pr ! 1);
     n4 \<leftarrow> wr (s4 t) k (pr ! 2);
     n5 \<leftarrow> wr (s5 t) k (pr ! 7);
     n6 \<leftarrow> wr (s6 t) k (pr ! 8);
     n7 \<leftarrow> wr (s7 t) k (pr ! 5);
     n8 \<leftarrow> wr (s8 t) k (pr ! 6);
     Some (t\<lparr>s1 := n1, s2 := n2, s3 := n3, s4 := n4, s5 := n5, s6 := n6, s7 := n7, s8 := n8\<rparr>)
   }"

text \<open>Lines 287-295: density and velocity of an open cell.\<close>

definition local_density :: "real list \<Rightarrow> real" where
  "local_density pr = pr ! 0 + pr ! 1 + pr ! 2 + pr ! 3 + pr ! 4 + pr ! 5 + pr ! 6 + pr ! 7 + pr ! 8"

definition u_x :: "real list \<Rightarrow> real option" where
  "u_x pr = fdiv (pr ! 1 + pr ! 5 + pr ! 8 - (pr ! 3 + pr ! 6 + pr ! 7)) (local_density pr)"

definition u_y :: "real list \<Rightarrow> real option" where
  "u_y pr = fdiv (pr ! 2 + pr ! 5 + pr ! 6 - (pr ! 4 + pr ! 7 + pr ! 8)) (local_density pr)"

definition u_sq :: "real \<Rightarrow> real \<Rightarrow> real" where
  "u_sq ux uy = (ux * ux) + (uy * uy)"

text \<open>Lines 298-306: the array \<open>u\<close>. The source leaves \<open>u[0]\<close> unassigned and never reads
  it; the list holds 0 there.\<close>

definition u_dir :: "real \<Rightarrow> real \<Rightarrow> real list" where
  "u_dir ux uy = [0, ux, uy, - ux, - uy, ux + uy, - ux + uy, - ux - uy, ux - uy]"

text \<open>Lines 215-218 and 309-321: the constants and the array \<open>d_equ\<close>.\<close>

definition c_sp :: real where "c_sp = 3"
definition w0 :: real where "w0 = 4 / 9"
definition w1 :: real where "w1 = 1 / 9"
definition w2 :: real where "w2 = 1 / 36"

definition d_equ :: "real \<Rightarrow> real \<Rightarrow> real \<Rightarrow> real list" where
  "d_equ ld ux uy =
    (let u = u_dir ux uy; usq = u_sq ux uy; c = c_sp in
     [ w0 * ld * (1 - usq * (0.5 * c)),
       w1 * ld * (1 + u ! 1 * c + (u ! 1 * u ! 1) * (1.5 * c) - usq * (0.5 * c)),
       w1 * ld * (1 + u ! 2 * c + (u ! 2 * u ! 2) * (1.5 * c) - usq * (0.5 * c)),
       w1 * ld * (1 + u ! 3 * c + (u ! 3 * u ! 3) * (1.5 * c) - usq * (0.5 * c)),
       w1 * ld * (1 + u ! 4 * c + (u ! 4 * u ! 4) * (1.5 * c) - usq * (0.5 * c)),
       w2 * ld * (1 + u ! 5 * c + (u ! 5 * u ! 5) * (1.5 * c) - usq * (0.5 * c)),
       w2 * ld * (1 + u ! 6 * c + (u ! 6 * u ! 6) * (1.5 * c) - usq * (0.5 * c)),
       w2 * ld * (1 + u ! 7 * c + (u ! 7 * u ! 7) * (1.5 * c) - usq * (0.5 * c)),
       w2 * ld * (1 + u ! 8 * c + (u ! 8 * u ! 8) * (1.5 * c) - usq * (0.5 * c)) ])"

text \<open>Lines 324-332: the nine relaxed values, in the order of the assignments.\<close>

definition relax :: "t_param \<Rightarrow> real list \<Rightarrow> real list \<Rightarrow> real list" where
  "relax p pr de =
    [ pr ! 0 + omega p * (de ! 0 - pr ! 0),
      pr ! 1 + omega p * (de ! 1 - pr ! 1),
      pr ! 2 + omega p * (de ! 2 - pr ! 2),
      pr ! 3 + omega p * (de ! 3 - pr ! 3),
      pr ! 4 + omega p * (de ! 4 - pr ! 4),
      pr ! 5 + omega p * (de ! 5 - pr ! 5),
      pr ! 6 + omega p * (de ! 6 - pr ! 6),
      pr ! 7 + omega p * (de ! 7 - pr ! 7),
      pr ! 8 + omega p * (de ! 8 - pr ! 8) ]"

text \<open>Lines 287-337: the open branch. It returns the scratch grid with all nine
  values of the cell assigned, and \<open>u_sq\<close>.\<close>

definition collision_cell :: "t_param \<Rightarrow> t_speeds \<Rightarrow> int \<Rightarrow> real list \<Rightarrow> (t_speeds \<times> real) option" where
  "collision_cell p t k pr = do {
     ux \<leftarrow> u_x pr;
     uy \<leftarrow> u_y pr;
     let nv = relax p pr (d_equ (local_density pr) ux uy);
     n0 \<leftarrow> wr (s0 t) k (nv ! 0);
     n1 \<leftarrow> wr (s1 t) k (nv ! 1);
     n2 \<leftarrow> wr (s2 t) k (nv ! 2);
     n3 \<leftarrow> wr (s3 t) k (nv ! 3);
     n4 \<leftarrow> wr (s4 t) k (nv ! 4);
     n5 \<leftarrow> wr (s5 t) k (nv ! 5);
     n6 \<leftarrow> wr (s6 t) k (nv ! 6);
     n7 \<leftarrow> wr (s7 t) k (nv ! 7);
     n8 \<leftarrow> wr (s8 t) k (nv ! 8);
     Some (\<lparr>s0 = n0, s1 = n1, s2 = n2, s3 = n3, s4 = n4, s5 = n5, s6 = n6, s7 = n7, s8 = n8\<rparr>,
           u_sq ux uy)
   }"

text \<open>The body of the inner loop (lines 252-338).\<close>

definition timestep_cell :: "t_param \<Rightarrow> int \<Rightarrow> int \<Rightarrow> t_loop \<Rightarrow> t_loop option" where
  "timestep_cell p jj ii st =
    (let m = mem st in do {
       pr \<leftarrow> propagate_cell p (cells m) jj ii;
       ob \<leftarrow> rd (obstacles m) (jj * nx p + ii);
       if ob \<noteq> 0
       then do {
         t \<leftarrow> rebound_cell (tmp_cells m) (ii + jj * nx p) pr;
         Some (st\<lparr>mem := m\<lparr>tmp_cells := t\<rparr>\<rparr>)
       }
       else do {
         (t, usq) \<leftarrow> collision_cell p (tmp_cells m) (ii + jj * nx p) pr;
         Some (st\<lparr>mem := m\<lparr>tmp_cells := t\<rparr>,
                  tot_cells := tot_cells st + 1,
                  tot_u := tot_u st + sqrt usq\<rparr>)
       }
     })"

function timestep_ii :: "t_param \<Rightarrow> int \<Rightarrow> int \<Rightarrow> t_loop \<Rightarrow> t_loop option" where
  "timestep_ii p jj ii st =
    (if ii < nx p
     then do { st' \<leftarrow> timestep_cell p jj ii st; timestep_ii p jj (ii + 1) st' }
     else Some st)"
  by pat_completeness auto
termination
  by (relation "measure (\<lambda>(p, jj, ii, st). nat (nx p - ii))") auto

declare timestep_ii.simps [simp del]

function timestep_jj :: "t_param \<Rightarrow> int \<Rightarrow> t_loop \<Rightarrow> t_loop option" where
  "timestep_jj p jj st =
    (if jj < ny p
     then do { st' \<leftarrow> timestep_ii p jj 0 st; timestep_jj p (jj + 1) st' }
     else Some st)"
  by pat_completeness auto
termination
  by (relation "measure (\<lambda>(p, jj, st). nat (ny p - jj))") auto

declare timestep_jj.simps [simp del]

text \<open>The stream-collide pass alone: the two loops, started with both accumulators
  at zero (lines 220-221 and 244-340).\<close>

definition stream_collide :: "t_param \<Rightarrow> t_state \<Rightarrow> t_loop option" where
  "stream_collide p m = timestep_jj p 0 \<lparr>mem = m, tot_cells = 0, tot_u = 0\<rparr>"

text \<open>\<open>timestep\<close>: the memory after the call and the returned float
  \<open>tot_u / (float)tot_cells\<close>.\<close>

definition timestep :: "t_param \<Rightarrow> t_state \<Rightarrow> (t_state \<times> real option) option" where
  "timestep p m = do {
     m1 \<leftarrow> accelerate_flow p m;
     st \<leftarrow> stream_collide p m1;
     Some (mem st, fdiv (tot_u st) (real_of_int (tot_cells st)))
   }"

subsection \<open>av_velocity (lines 373-415)\<close>

definition av_velocity_cell :: "t_param \<Rightarrow> int \<Rightarrow> int \<Rightarrow> t_loop \<Rightarrow> t_loop option" where
  "av_velocity_cell p jj ii st =
    (let m = mem st; c = cells m; k = ii + jj * nx p in do {
       ob \<leftarrow> rd (obstacles m) k;
       if ob \<noteq> 0 then Some st
       else do {
         c0 \<leftarrow> rd (s0 c) k;
         c1 \<leftarrow> rd (s1 c) k;
         c2 \<leftarrow> rd (s2 c) k;
         c3 \<leftarrow> rd (s3 c) k;
         c4 \<leftarrow> rd (s4 c) k;
         c5 \<leftarrow> rd (s5 c) k;
         c6 \<leftarrow> rd (s6 c) k;
         c7 \<leftarrow> rd (s7 c) k;
         c8 \<leftarrow> rd (s8 c) k;
         let ld = 0 + c0 + c1 + c2 + c3 + c4 + c5 + c6 + c7 + c8;
         ux \<leftarrow> fdiv (c1 + c5 + c8 - (c3 + c6 + c7)) ld;
         uy \<leftarrow> fdiv (c2 + c5 + c6 - (c4 + c7 + c8)) ld;
         Some (st\<lparr>tot_u := tot_u st + sqrt ((ux * ux) + (uy * uy)),
                  tot_cells := tot_cells st + 1\<rparr>)
       }
     })"

function av_velocity_ii :: "t_param \<Rightarrow> int \<Rightarrow> int \<Rightarrow> t_loop \<Rightarrow> t_loop option" where
  "av_velocity_ii p jj ii st =
    (if ii < nx p
     then do { st' \<leftarrow> av_velocity_cell p jj ii st; av_velocity_ii p jj (ii + 1) st' }
     else Some st)"
  by pat_completeness auto
termination
  by (relation "measure (\<lambda>(p, jj, ii, st). nat (nx p - ii))") auto

declare av_velocity_ii.simps [simp del]

function av_velocity_jj :: "t_param \<Rightarrow> int \<Rightarrow> t_loop \<Rightarrow> t_loop option" where
  "av_velocity_jj p jj st =
    (if jj < ny p
     then do { st' \<leftarrow> av_velocity_ii p jj 0 st; av_velocity_jj p (jj + 1) st' }
     else Some st)"
  by pat_completeness auto
termination
  by (relation "measure (\<lambda>(p, jj, st). nat (ny p - jj))") auto

declare av_velocity_jj.simps [simp del]

definition av_velocity_loops :: "t_param \<Rightarrow> t_state \<Rightarrow> t_loop option" where
  "av_velocity_loops p m = av_velocity_jj p 0 \<lparr>mem = m, tot_cells = 0, tot_u = 0\<rparr>"

definition av_velocity :: "t_param \<Rightarrow> t_state \<Rightarrow> real option option" where
  "av_velocity p m = do {
     st \<leftarrow> av_velocity_loops p m;
     Some (fdiv (tot_u st) (real_of_int (tot_cells st)))
   }"

subsection \<open>calc_reynolds (lines 628-633)\<close>

text \<open>A NaN average (the only non-finite value \<open>av_velocity\<close> returns in this model,
  from 0/0) stays NaN through the multiplication and the division.\<close>

definition calc_reynolds :: "t_param \<Rightarrow> t_state \<Rightarrow> real option option" where
  "calc_reynolds p m = do {
     q \<leftarrow> fdiv 2 (omega p);
     let viscosity = 1 / 6 * (q - 1);
     av \<leftarrow> av_velocity p m;
     Some (case av of
             None \<Rightarrow> None
           | Some v \<Rightarrow> fdiv (v * real_of_int (reynolds_dim p)) viscosity)
   }"

subsection \<open>total_density (lines 635-656)\<close>

definition total_density_cell :: "t_param \<Rightarrow> t_speeds \<Rightarrow> int \<Rightarrow> int \<Rightarrow> real \<Rightarrow> real option" where
  "total_density_cell p c jj ii tot =
    (let k = ii + jj * nx p in do {
       c0 \<leftarrow> rd (s0 c) k;
       c1 \<leftarrow> rd (s1 c) k;
       c2 \<leftarrow> rd (s2 c) k;
       c3 \<leftarrow> rd (s3 c) k;
       c4 \<leftarrow> rd (s4 c) k;
       c5 \<leftarrow> rd (s5 c) k;
       c6 \<leftarrow> rd (s6 c) k;
       c7 \<leftarrow> rd (s7 c) k;
       c8 \<leftarrow> rd (s8 c) k;
       Some (tot + c0 + c1 + c2 + c3 + c4 + c5 + c6 + c7 + c8)
     })"

function total_density_ii :: "t_param \<Rightarrow> t_speeds \<Rightarrow> int \<Rightarrow> int \<Rightarrow> real \<Rightarrow> real option" where
  "total_density_ii p c jj ii tot =
    (if ii < nx p
     then do { t' \<leftarrow> total_density_cell p c jj ii tot; total_density_ii p c jj (ii + 1) t' }
     else Some tot)"
  by pat_completeness auto
termination
  by (relation "measure (\<lambda>(p, c, jj, ii, t). nat (nx p - ii))") auto

declare total_density_ii.simps [simp del]

function total_density_jj :: "t_param \<Rightarrow> t_speeds \<Rightarrow> int \<Rightarrow> real \<Rightarrow> real option" where
  "total_density_jj p c jj tot =
    (if jj < ny p
     then do { t' \<leftarrow> total_density_ii p c jj 0 tot; total_density_jj p c (jj + 1) t' }
     else Some tot)"
  by pat_completeness auto
termination
  by (relation "measure (\<lambda>(p, c, jj, t). nat (ny p - jj))") auto

declare total_density_jj.simps [simp del]

definition total_density :: "t_param \<Rightarrow> t_speeds \<Rightarrow> real option" where
  "total_density p c = total_density_jj p c 0 0"

subsection \<open>The iteration of main (lines 174-186)\<close>

text \<open>One pass of the loop of \<open>main\<close>: \<open>timestep\<close>, then the exchange of the two grid
  pointers.\<close>

definition main_iter :: "t_param \<Rightarrow> t_state \<Rightarrow> (t_state \<times> real option) option" where
  "main_iter p m = do {
     (m', av) \<leftarrow> timestep p m;
     Some (m'\<lparr>cells := tmp_cells m', tmp_cells := cells m'\<rparr>, av)
   }"

section \<open>Vocabulary for the properties\<close>

subsection \<open>Well-formed memory\<close>

text \<open>Every array of a grid has \<open>nx * ny\<close> elements (\<open>initialise\<close>, lines 495-527).\<close>

definition wf_grid :: "t_param \<Rightarrow> t_speeds \<Rightarrow> bool" where
  "wf_grid p c \<longleftrightarrow> list_all (\<lambda>xs. int (length xs) = nx p * ny p)
      [s0 c, s1 c, s2 c, s3 c, s4 c, s5 c, s6 c, s7 c, s8 c]"

definition wf_state :: "t_param \<Rightarrow> t_state \<Rightarrow> bool" where
  "wf_state p m \<longleftrightarrow> 0 < nx p \<and> 0 < ny p \<and> nx p * ny p \<le> 2147483647 \<and>
     wf_grid p (cells m) \<and> wf_grid p (tmp_cells m) \<and> int (length (obstacles m)) = nx p * ny p"

subsection \<open>Cells and directions\<close>

text \<open>The array of direction \<open>d\<close>, the nine values of the cell at index \<open>k\<close>, and the
  row-major index \<open>ii + jj * nx\<close> of cell \<open>(ii, jj)\<close>.\<close>

definition speed :: "t_speeds \<Rightarrow> nat \<Rightarrow> real list" where
  "speed c d = [s0 c, s1 c, s2 c, s3 c, s4 c, s5 c, s6 c, s7 c, s8 c] ! d"

definition cell_at :: "t_speeds \<Rightarrow> nat \<Rightarrow> real list" where
  "cell_at c k = [s0 c ! k, s1 c ! k, s2 c ! k, s3 c ! k, s4 c ! k, s5 c ! k, s6 c ! k, s7 c ! k, s8 c ! k]"

definition set_cell :: "t_speeds \<Rightarrow> nat \<Rightarrow> real list \<Rightarrow> t_speeds" where
  "set_cell t k vs = \<lparr>s0 = (s0 t)[k := vs ! 0], s1 = (s1 t)[k := vs ! 1], s2 = (s2 t)[k := vs ! 2],
     s3 = (s3 t)[k := vs ! 3], s4 = (s4 t)[k := vs ! 4], s5 = (s5 t)[k := vs ! 5],
     s6 = (s6 t)[k := vs ! 6], s7 = (s7 t)[k := vs ! 7], s8 = (s8 t)[k := vs ! 8]\<rparr>"

definition row_index :: "t_param \<Rightarrow> int \<Rightarrow> int \<Rightarrow> nat" where
  "row_index p jj ii = nat (ii + jj * nx p)"

text \<open>The unit offsets of the nine directions, from the diagram at lines 9-13 and the
  comments at lines 256-264: 0 rest, 1 east, 2 north, 3 west, 4 south, 5 north-east,
  6 north-west, 7 south-west, 8 south-east.\<close>

definition e_x :: "nat \<Rightarrow> int" where
  "e_x d = [0, 1, 0, - 1, 0, 1, - 1, - 1, 1] ! d"

definition e_y :: "nat \<Rightarrow> int" where
  "e_y d = [0, 0, 1, 0, - 1, 1, 1, - 1, - 1] ! d"

definition is_open :: "t_param \<Rightarrow> int list \<Rightarrow> int \<Rightarrow> int \<Rightarrow> bool" where
  "is_open p obs jj ii \<longleftrightarrow> obs ! row_index p jj ii = 0"

text \<open>The open cells in loop order: of row \<open>jj\<close> from column \<open>i0\<close> on, and of the rows
  from \<open>j0\<close> on.\<close>

definition open_cols :: "t_param \<Rightarrow> int list \<Rightarrow> int \<Rightarrow> int \<Rightarrow> int list" where
  "open_cols p obs jj i0 = filter (\<lambda>ii. is_open p obs jj ii) [i0..nx p - 1]"

definition open_cells_from :: "t_param \<Rightarrow> int list \<Rightarrow> int \<Rightarrow> (int \<times> int) list" where
  "open_cells_from p obs j0 =
     concat (map (\<lambda>jj. map (Pair jj) (open_cols p obs jj 0)) [j0..ny p - 1])"

subsection \<open>The specification's wording of the stages\<close>

text \<open>Periodic streaming (spec 4.3, step 1): direction \<open>d\<close> is read at the neighbour found
  by subtracting the unit offset of \<open>d\<close>, the indices wrapped modulo \<open>nx\<close> and \<open>ny\<close>.\<close>

definition streamed :: "t_param \<Rightarrow> t_speeds \<Rightarrow> int \<Rightarrow> int \<Rightarrow> real list" where
  "streamed p c jj ii =
     map (\<lambda>d. speed c d ! nat ((ii - e_x d) mod nx p + ((jj - e_y d) mod ny p) * nx p))
       [0, 1, 2, 3, 4, 5, 6, 7, 8]"

text \<open>The equilibrium of the specification (spec 4.3, step d).\<close>

definition weight :: "nat \<Rightarrow> real" where
  "weight d = (if d = 0 then 4 / 9 else if d \<le> 4 then 1 / 9 else 1 / 36)"

definition e_d :: "nat \<Rightarrow> real \<Rightarrow> real \<Rightarrow> real" where
  "e_d d ux uy = real_of_int (e_x d) * ux + real_of_int (e_y d) * uy"

definition equilibrium_spec :: "nat \<Rightarrow> real \<Rightarrow> real \<Rightarrow> real \<Rightarrow> real" where
  "equilibrium_spec d ld ux uy =
     weight d * ld * (1 + 3 * e_d d ux uy + 4.5 * (e_d d ux uy)\<^sup>2 - 1.5 * (ux\<^sup>2 + uy\<^sup>2))"

text \<open>The velocity magnitude of a cell with the nine values \<open>pr\<close>, by the functions of
  the collide step.\<close>

definition cell_speed :: "real list \<Rightarrow> real" where
  "cell_speed pr = sqrt (u_sq (the (u_x pr)) (the (u_y pr)))"

text \<open>The nine values of cell \<open>(ii, jj)\<close> in the scratch grid after the loop body has run
  for it: relaxed for an open cell; for an obstacle the eight reflected values, and for
  direction 0 what the scratch grid held before.\<close>

definition cell_new :: "t_param \<Rightarrow> t_state \<Rightarrow> int \<Rightarrow> int \<Rightarrow> real list" where
  "cell_new p m jj ii =
    (let pr = streamed p (cells m) jj ii in
     if is_open p (obstacles m) jj ii
     then relax p pr (d_equ (local_density pr) (the (u_x pr)) (the (u_y pr)))
     else [s0 (tmp_cells m) ! row_index p jj ii,
           pr ! 3, pr ! 4, pr ! 1, pr ! 2, pr ! 7, pr ! 8, pr ! 5, pr ! 6])"

text \<open>The acceleration stage: the two amounts, the guard of line 357, and the six
  assignments of lines 360-366 at index \<open>k\<close>.\<close>

definition accel_w1 :: "t_param \<Rightarrow> real" where "accel_w1 p = density p * accel p / 9"
definition accel_w2 :: "t_param \<Rightarrow> real" where "accel_w2 p = density p * accel p / 36"

definition accel_guard :: "t_param \<Rightarrow> t_state \<Rightarrow> nat \<Rightarrow> bool" where
  "accel_guard p m k \<longleftrightarrow> obstacles m ! k = 0 \<and> s3 (cells m) ! k - accel_w1 p > 0 \<and>
     s6 (cells m) ! k - accel_w2 p > 0 \<and> s7 (cells m) ! k - accel_w2 p > 0"

definition accel_apply :: "t_param \<Rightarrow> t_speeds \<Rightarrow> nat \<Rightarrow> t_speeds" where
  "accel_apply p c k = c\<lparr>
     s1 := (s1 c)[k := s1 c ! k + accel_w1 p],
     s5 := (s5 c)[k := s5 c ! k + accel_w2 p],
     s8 := (s8 c)[k := s8 c ! k + accel_w2 p],
     s3 := (s3 c)[k := s3 c ! k - accel_w1 p],
     s6 := (s6 c)[k := s6 c ! k - accel_w2 p],
     s7 := (s7 c)[k := s7 c ! k - accel_w2 p]\<rparr>"

text \<open>The guard as the specification words it (spec 4.2): the three decreases would not
  make a value negative.\<close>

definition accel_guard_spec :: "t_param \<Rightarrow> t_state \<Rightarrow> nat \<Rightarrow> bool" where
  "accel_guard_spec p m k \<longleftrightarrow> obstacles m ! k = 0 \<and> 0 \<le> s3 (cells m) ! k - accel_w1 p \<and>
     0 \<le> s6 (cells m) ! k - accel_w2 p \<and> 0 \<le> s7 (cells m) ! k - accel_w2 p"

text \<open>The mean, over the open cells, of the velocity magnitude of the values stored in the
  current grid (spec 4.4).\<close>

definition mean_speed :: "t_param \<Rightarrow> t_state \<Rightarrow> real" where
  "mean_speed p m =
     sum_list (map (\<lambda>(jj, ii). cell_speed (cell_at (cells m) (row_index p jj ii)))
                   (open_cells_from p (obstacles m) 0))
       / real (length (open_cells_from p (obstacles m) 0))"

subsection \<open>Mass\<close>

text \<open>The sum of the nine values of a cell, the sum over the grid (what \<open>total_density\<close>
  accumulates), and the amount by which the rest values left in the scratch grid at the
  obstacle cells differ from those of the current grid.\<close>

definition cell_sum :: "t_speeds \<Rightarrow> nat \<Rightarrow> real" where
  "cell_sum c k = sum_list (cell_at c k)"

definition grid_sum :: "t_param \<Rightarrow> t_speeds \<Rightarrow> real" where
  "grid_sum p c = (\<Sum>jj = 0..ny p - 1. \<Sum>ii = 0..nx p - 1. cell_sum c (row_index p jj ii))"

definition stale_rest :: "t_param \<Rightarrow> t_state \<Rightarrow> real" where
  "stale_rest p m = (\<Sum>jj = 0..ny p - 1. \<Sum>ii = 0..nx p - 1.
       if is_open p (obstacles m) jj ii then 0
       else s0 (tmp_cells m) ! row_index p jj ii - s0 (cells m) ! row_index p jj ii)"

subsection \<open>Example inputs\<close>

text \<open>Parameters for a grid of one column and two rows (row \<open>ny - 2\<close> is row 0), without
  acceleration, with \<open>w1 = 1\<close>, \<open>w2 = 1/4\<close>, and with \<open>w1 = 1/2\<close>, \<open>w2 = 1/8\<close>.\<close>

definition ex_param :: t_param where
  "ex_param = \<lparr>nx = 1, ny = 2, maxIters = 1, reynolds_dim = 1, density = 9, accel = 0, omega = 1\<rparr>"

definition ex_param_accel :: t_param where
  "ex_param_accel = \<lparr>nx = 1, ny = 2, maxIters = 1, reynolds_dim = 1, density = 9, accel = 1, omega = 1\<rparr>"

definition ex_param_half :: t_param where
  "ex_param_half = \<lparr>nx = 1, ny = 2, maxIters = 1, reynolds_dim = 1, density = 9, accel = 1 / 2, omega = 1\<rparr>"

text \<open>States on that grid: every value of the current grid 1 and of the scratch grid 7,
  with no obstacle and with both cells blocked.\<close>

definition const_grid :: "real \<Rightarrow> t_speeds" where
  "const_grid v = \<lparr>s0 = [v, v], s1 = [v, v], s2 = [v, v], s3 = [v, v], s4 = [v, v],
     s5 = [v, v], s6 = [v, v], s7 = [v, v], s8 = [v, v]\<rparr>"

definition ex_open :: t_state where
  "ex_open = \<lparr>cells = const_grid 1, tmp_cells = const_grid 7, obstacles = [0, 0]\<rparr>"

definition ex_blocked :: t_state where
  "ex_blocked = \<lparr>cells = const_grid 1, tmp_cells = const_grid 7, obstacles = [1, 1]\<rparr>"

text \<open>An open cell \<open>(0, 0)\<close> of density 10 and velocity \<open>(3/10, 4/10)\<close>, next to an obstacle.\<close>

definition ex_flow :: t_state where
  "ex_flow = \<lparr>cells = \<lparr>s0 = [1, 1], s1 = [4, 1], s2 = [4, 1], s3 = [1, 1], s4 = [0, 1],
       s5 = [0, 1], s6 = [0, 1], s7 = [0, 1], s8 = [0, 1]\<rparr>,
     tmp_cells = const_grid 7, obstacles = [0, 1]\<rparr>"

text \<open>An obstacle at cell \<open>(0, 0)\<close>: the values streamed into that cell differ by direction,
  the values streamed into the open cell \<open>(0, 1)\<close> are all 1, and the scratch grid holds 7
  everywhere.\<close>

definition ex_bounce :: t_state where
  "ex_bounce = \<lparr>cells = \<lparr>s0 = [10, 1], s1 = [2, 1], s2 = [1, 5], s3 = [3, 1], s4 = [1, 6],
       s5 = [1, 7], s6 = [1, 8], s7 = [1, 9], s8 = [1, 11]\<rparr>,
     tmp_cells = const_grid 7, obstacles = [1, 0]\<rparr>"

text \<open>A grid of three columns and two rows whose value in direction \<open>d\<close> at index \<open>k\<close> is
  \<open>10 * d + k\<close>.\<close>

definition ex_param3 :: t_param where
  "ex_param3 = \<lparr>nx = 3, ny = 2, maxIters = 1, reynolds_dim = 1, density = 1, accel = 0, omega = 1\<rparr>"

definition ex_grid3 :: t_speeds where
  "ex_grid3 = \<lparr>s0 = [0, 1, 2, 3, 4, 5], s1 = [10, 11, 12, 13, 14, 15], s2 = [20, 21, 22, 23, 24, 25],
     s3 = [30, 31, 32, 33, 34, 35], s4 = [40, 41, 42, 43, 44, 45], s5 = [50, 51, 52, 53, 54, 55],
     s6 = [60, 61, 62, 63, 64, 65], s7 = [70, 71, 72, 73, 74, 75], s8 = [80, 81, 82, 83, 84, 85]\<rparr>"

section \<open>The kernel in binary32 arithmetic\<close>

text \<open>
  Rounding and overflow are outside the embedding above. The two properties that depend on
  them (C6 and C7) are stated over a second embedding of \<open>accelerate_flow\<close> and \<open>timestep\<close>,
  in which a \<open>float\<close> is an IEEE 754 binary32 value and every arithmetic operator of the
  source is one correctly rounded binary32 operation. Its functions carry the suffix \<open>32\<close>.
  \<^item> A \<open>float\<close> is an \<open>f32\<close>: a finite value \<open>Fin x\<close> (\<open>x\<close> the real number it denotes), one
    of the two infinities, or NaN. Zero has no sign. The sign of a zero shows only when
    something is divided by it, and the two divisors of the kernel are \<open>local_density\<close>, a
    sum, which is \<open>-0\<close> only if all nine addends are \<open>-0\<close> (the dividend is a zero as well
    then, and the quotient NaN for either sign), and \<open>(float)tot_cells\<close>, which is never
    negative.
  \<^item> The operators are applied in the order of the C grammar (\<open>a + b + c\<close> is
    \<open>(a + b) + c\<close>), each in binary32 with round to nearest, ties to even, and gradual
    underflow; nothing is fused or reassociated. \<open>sqrtf\<close> is correctly rounded.
  \<^item> The \<open>float\<close> members of \<open>t_param\<close> are read through \<open>fl\<close>, which leaves a binary32 number
    as it is (\<open>fl_idem\<close>): a member that is no binary32 number stands for the nearest one, as
    the \<open>%f\<close> conversion of \<open>initialise\<close> (lines 457-467) stores it.
  \<^item> \<open>None\<close> says that an array is read or written out of bounds, and nothing else: an
    infinity or a NaN is stored like any other value and the pass goes on, as in C.
  \<^item> The loops run in source order. With OpenMP the partial sums of \<open>tot_u\<close> may be added in
    another order, which can change the last bits of the sum.
\<close>

subsection \<open>binary32 numbers and rounding\<close>

datatype f32 = Fin real | PInf | NInf | NaN

text \<open>The integer nearest to \<open>q\<close>, the even one of the two when \<open>q\<close> lies half way.\<close>

definition round_even :: "real \<Rightarrow> int" where
  "round_even q = (let f = \<lfloor>q\<rfloor>; d = q - of_int f in
     if d < 1 / 2 then f else if 1 / 2 < d then f + 1 else if even f then f else f + 1)"

text \<open>\<open>bexp n e a\<close> finds by bisection the greatest \<open>k\<close> among \<open>e, \<dots>, e + 2^n - 1\<close> with
  \<open>2^k \<le> a\<close>, and \<open>e\<close> if there is none. \<open>ulp_exp x\<close> is the exponent of the unit in the last
  place of the binary32 numbers of the magnitude of \<open>x\<close>: 24 significant bits, the exponent
  of the leading bit not below \<open>-126\<close> (below \<open>2^-126\<close> the numbers are subnormal, with unit
  \<open>2^-149\<close>).\<close>

fun bexp :: "nat \<Rightarrow> int \<Rightarrow> real \<Rightarrow> int" where
  "bexp 0 e a = e"
| "bexp (Suc n) e a = (if a < 2 powi (e + 2 ^ n) then bexp n e a else bexp n (e + 2 ^ n) a)"

definition ulp_exp :: "real \<Rightarrow> int" where
  "ulp_exp x = bexp 8 (- 126) \<bar>x\<bar> - 23"

text \<open>Round to nearest, ties to even, with unbounded exponent; \<open>FLT_MAX\<close>; and the binary32
  value of a real number, an infinity when the rounded magnitude exceeds \<open>FLT_MAX\<close>.\<close>

definition rne :: "real \<Rightarrow> real" where
  "rne x = of_int (round_even (x / 2 powi ulp_exp x)) * 2 powi ulp_exp x"

definition flt_max :: real where
  "flt_max = (2 ^ 24 - 1) * 2 ^ 104"

definition fl :: "real \<Rightarrow> f32" where
  "fl x = (let y = rne x in if flt_max < y then PInf else if y < - flt_max then NInf else Fin y)"

text \<open>The operations of IEEE 754 on these values: \<open>-\<close>, \<open>+\<close>, \<open>-\<close> (binary), \<open>*\<close>, \<open>/\<close>, \<open>sqrtf\<close>
  and \<open>>\<close>. A comparison with NaN is false.\<close>

fun neg32 :: "f32 \<Rightarrow> f32" where
  "neg32 (Fin x) = Fin (- x)"
| "neg32 PInf = NInf"
| "neg32 NInf = PInf"
| "neg32 NaN = NaN"

fun add32 :: "f32 \<Rightarrow> f32 \<Rightarrow> f32" where
  "add32 (Fin x) (Fin y) = fl (x + y)"
| "add32 (Fin x) PInf = PInf"
| "add32 (Fin x) NInf = NInf"
| "add32 PInf (Fin y) = PInf"
| "add32 PInf PInf = PInf"
| "add32 PInf NInf = NaN"
| "add32 NInf (Fin y) = NInf"
| "add32 NInf PInf = NaN"
| "add32 NInf NInf = NInf"
| "add32 NaN y = NaN"
| "add32 x NaN = NaN"

definition sub32 :: "f32 \<Rightarrow> f32 \<Rightarrow> f32" where
  "sub32 x y = add32 x (neg32 y)"

fun mul32 :: "f32 \<Rightarrow> f32 \<Rightarrow> f32" where
  "mul32 (Fin x) (Fin y) = fl (x * y)"
| "mul32 (Fin x) PInf = (if x = 0 then NaN else if 0 < x then PInf else NInf)"
| "mul32 (Fin x) NInf = (if x = 0 then NaN else if 0 < x then NInf else PInf)"
| "mul32 PInf (Fin y) = (if y = 0 then NaN else if 0 < y then PInf else NInf)"
| "mul32 NInf (Fin y) = (if y = 0 then NaN else if 0 < y then NInf else PInf)"
| "mul32 PInf PInf = PInf"
| "mul32 PInf NInf = NInf"
| "mul32 NInf PInf = NInf"
| "mul32 NInf NInf = PInf"
| "mul32 NaN y = NaN"
| "mul32 x NaN = NaN"

fun div32 :: "f32 \<Rightarrow> f32 \<Rightarrow> f32" where
  "div32 (Fin x) (Fin y) =
     (if y = 0 then (if x = 0 then NaN else if 0 < x then PInf else NInf) else fl (x / y))"
| "div32 (Fin x) PInf = Fin 0"
| "div32 (Fin x) NInf = Fin 0"
| "div32 PInf (Fin y) = (if 0 \<le> y then PInf else NInf)"
| "div32 NInf (Fin y) = (if 0 \<le> y then NInf else PInf)"
| "div32 PInf PInf = NaN"
| "div32 PInf NInf = NaN"
| "div32 NInf PInf = NaN"
| "div32 NInf NInf = NaN"
| "div32 NaN y = NaN"
| "div32 x NaN = NaN"

fun sqrt32 :: "f32 \<Rightarrow> f32" where
  "sqrt32 (Fin x) = (if x < 0 then NaN else fl (sqrt x))"
| "sqrt32 PInf = PInf"
| "sqrt32 NInf = NaN"
| "sqrt32 NaN = NaN"

fun gt32 :: "f32 \<Rightarrow> f32 \<Rightarrow> bool" where
  "gt32 (Fin x) (Fin y) \<longleftrightarrow> y < x"
| "gt32 (Fin x) NInf \<longleftrightarrow> True"
| "gt32 PInf (Fin y) \<longleftrightarrow> True"
| "gt32 PInf NInf \<longleftrightarrow> True"
| "gt32 x y \<longleftrightarrow> False"

subsection \<open>Data in binary32\<close>

text \<open>The structures \<open>t_speeds\<close>, the memory and the loop state as above, with \<open>f32\<close> values.
  \<open>t_param\<close> is shared with the first embedding.\<close>

record t_speeds32 =
  s0_32 :: "f32 list"
  s1_32 :: "f32 list"
  s2_32 :: "f32 list"
  s3_32 :: "f32 list"
  s4_32 :: "f32 list"
  s5_32 :: "f32 list"
  s6_32 :: "f32 list"
  s7_32 :: "f32 list"
  s8_32 :: "f32 list"

record t_state32 =
  cells32 :: t_speeds32
  tmp_cells32 :: t_speeds32
  obstacles32 :: "int list"

record t_loop32 =
  mem32 :: t_state32
  tot_cells32 :: int
  tot_u32 :: f32

subsection \<open>accelerate_flow in binary32 (lines 344-371)\<close>

text \<open>Lines 347-348: \<open>w1 = params.density * params.accel / 9.f\<close> is the quotient of the
  rounded product. The guard and the six assignments are those of \<open>accelerate_cell\<close>.\<close>

definition accelerate_cell32 :: "t_param \<Rightarrow> int \<Rightarrow> t_state32 \<Rightarrow> t_state32 option" where
  "accelerate_cell32 p ii m =
    (let w1 = div32 (mul32 (fl (density p)) (fl (accel p))) (Fin 9);
         w2 = div32 (mul32 (fl (density p)) (fl (accel p))) (Fin 36);
         jj = ny p - 2;
         k = ii + jj * nx p;
         c = cells32 m
     in do {
       ob \<leftarrow> rd (obstacles32 m) k;
       if ob \<noteq> 0 then Some m else do {
       c3 \<leftarrow> rd (s3_32 c) k;
       if \<not> gt32 (sub32 c3 w1) (Fin 0) then Some m else do {
       c6 \<leftarrow> rd (s6_32 c) k;
       if \<not> gt32 (sub32 c6 w2) (Fin 0) then Some m else do {
       c7 \<leftarrow> rd (s7_32 c) k;
       if \<not> gt32 (sub32 c7 w2) (Fin 0) then Some m else do {
         c1 \<leftarrow> rd (s1_32 c) k;
         n1 \<leftarrow> wr (s1_32 c) k (add32 c1 w1);
         c5 \<leftarrow> rd (s5_32 c) k;
         n5 \<leftarrow> wr (s5_32 c) k (add32 c5 w2);
         c8 \<leftarrow> rd (s8_32 c) k;
         n8 \<leftarrow> wr (s8_32 c) k (add32 c8 w2);
         n3 \<leftarrow> wr (s3_32 c) k (sub32 c3 w1);
         n6 \<leftarrow> wr (s6_32 c) k (sub32 c6 w2);
         n7 \<leftarrow> wr (s7_32 c) k (sub32 c7 w2);
         Some (m\<lparr>cells32 := c\<lparr>s1_32 := n1, s5_32 := n5, s8_32 := n8,
                                s3_32 := n3, s6_32 := n6, s7_32 := n7\<rparr>\<rparr>)
       }}}}
     })"

function accelerate_loop32 :: "t_param \<Rightarrow> int \<Rightarrow> t_state32 \<Rightarrow> t_state32 option" where
  "accelerate_loop32 p ii m =
    (if ii < nx p
     then do { m' \<leftarrow> accelerate_cell32 p ii m; accelerate_loop32 p (ii + 1) m' }
     else Some m)"
  by pat_completeness auto
termination
  by (relation "measure (\<lambda>(p, ii, m). nat (nx p - ii))") auto

declare accelerate_loop32.simps [simp del]

definition accelerate_flow32 :: "t_param \<Rightarrow> t_state32 \<Rightarrow> t_state32 option" where
  "accelerate_flow32 p m = accelerate_loop32 p 0 m"

subsection \<open>timestep in binary32 (lines 213-342)\<close>

text \<open>Lines 247-284: streaming and the obstacle branch copy values and do no arithmetic.\<close>

definition propagate_cell32 :: "t_param \<Rightarrow> t_speeds32 \<Rightarrow> int \<Rightarrow> int \<Rightarrow> f32 list option" where
  "propagate_cell32 p c jj ii =
    (let y_s = (if jj = 0 then jj + ny p - 1 else jj - 1);
         y_n = (jj + 1) mod ny p;
         x_e = (ii + 1) mod nx p;
         x_w = (if ii = 0 then ii + nx p - 1 else ii - 1)
     in do {
       prop0 \<leftarrow> rd (s0_32 c) (ii + jj * nx p);
       prop1 \<leftarrow> rd (s1_32 c) (x_w + jj * nx p);
       prop2 \<leftarrow> rd (s2_32 c) (ii + y_s * nx p);
       prop3 \<leftarrow> rd (s3_32 c) (x_e + jj * nx p);
       prop4 \<leftarrow> rd (s4_32 c) (ii + y_n * nx p);
       prop5 \<leftarrow> rd (s5_32 c) (x_w + y_s * nx p);
       prop6 \<leftarrow> rd (s6_32 c) (x_e + y_s * nx p);
       prop7 \<leftarrow> rd (s7_32 c) (x_e + y_n * nx p);
       prop8 \<leftarrow> rd (s8_32 c) (x_w + y_n * nx p);
       Some [prop0, prop1, prop2, prop3, prop4, prop5, prop6, prop7, prop8]
     })"

definition rebound_cell32 :: "t_speeds32 \<Rightarrow> int \<Rightarrow> f32 list \<Rightarrow> t_speeds32 option" where
  "rebound_cell32 t k pr = do {
     n1 \<leftarrow> wr (s1_32 t) k (pr ! 3);
     n2 \<leftarrow> wr (s2_32 t) k (pr ! 4);
     n3 \<leftarrow> wr (s3_32 t) k (pr ! 1);
     n4 \<leftarrow> wr (s4_32 t) k (pr ! 2);
     n5 \<leftarrow> wr (s5_32 t) k (pr ! 7);
     n6 \<leftarrow> wr (s6_32 t) k (pr ! 8);
     n7 \<leftarrow> wr (s7_32 t) k (pr ! 5);
     n8 \<leftarrow> wr (s8_32 t) k (pr ! 6);
     Some (t\<lparr>s1_32 := n1, s2_32 := n2, s3_32 := n3, s4_32 := n4,
             s5_32 := n5, s6_32 := n6, s7_32 := n7, s8_32 := n8\<rparr>)
   }"

text \<open>Lines 287-295: density and velocity of an open cell; the nine values are added from
  left to right.\<close>

definition local_density32 :: "f32 list \<Rightarrow> f32" where
  "local_density32 pr =
     add32 (add32 (add32 (add32 (add32 (add32 (add32 (add32 (pr ! 0) (pr ! 1)) (pr ! 2)) (pr ! 3))
       (pr ! 4)) (pr ! 5)) (pr ! 6)) (pr ! 7)) (pr ! 8)"

definition u_x32 :: "f32 list \<Rightarrow> f32" where
  "u_x32 pr = div32 (sub32 (add32 (add32 (pr ! 1) (pr ! 5)) (pr ! 8))
                           (add32 (add32 (pr ! 3) (pr ! 6)) (pr ! 7)))
                    (local_density32 pr)"

definition u_y32 :: "f32 list \<Rightarrow> f32" where
  "u_y32 pr = div32 (sub32 (add32 (add32 (pr ! 2) (pr ! 5)) (pr ! 6))
                           (add32 (add32 (pr ! 4) (pr ! 7)) (pr ! 8)))
                    (local_density32 pr)"

definition u_sq32 :: "f32 \<Rightarrow> f32 \<Rightarrow> f32" where
  "u_sq32 ux uy = add32 (mul32 ux ux) (mul32 uy uy)"

definition u_dir32 :: "f32 \<Rightarrow> f32 \<Rightarrow> f32 list" where
  "u_dir32 ux uy = [Fin 0, ux, uy, neg32 ux, neg32 uy, add32 ux uy, add32 (neg32 ux) uy,
     sub32 (neg32 ux) uy, sub32 ux uy]"

text \<open>Lines 215-218 and 309-321: the constants, which the compiler evaluates in binary32,
  and the array \<open>d_equ\<close>. \<open>d_equ_dir32 w ld u usq\<close> is the right-hand side shared by lines
  314-321, \<open>w * local_density * (1.f + u * c + (u * u) * (1.5f * c) - u_sq * (0.5f * c))\<close>.\<close>

definition c_sp32 :: f32 where "c_sp32 = Fin 3"
definition w0_32 :: f32 where "w0_32 = div32 (Fin 4) (Fin 9)"
definition w1_32 :: f32 where "w1_32 = div32 (Fin 1) (Fin 9)"
definition w2_32 :: f32 where "w2_32 = div32 (Fin 1) (Fin 36)"

definition d_equ_dir32 :: "f32 \<Rightarrow> f32 \<Rightarrow> f32 \<Rightarrow> f32 \<Rightarrow> f32" where
  "d_equ_dir32 w ld u usq =
     mul32 (mul32 w ld)
       (sub32 (add32 (add32 (Fin 1) (mul32 u c_sp32))
                     (mul32 (mul32 u u) (mul32 (Fin (3 / 2)) c_sp32)))
              (mul32 usq (mul32 (Fin (1 / 2)) c_sp32)))"

definition d_equ32 :: "f32 \<Rightarrow> f32 \<Rightarrow> f32 \<Rightarrow> f32 list" where
  "d_equ32 ld ux uy =
    (let u = u_dir32 ux uy; usq = u_sq32 ux uy in
     [ mul32 (mul32 w0_32 ld) (sub32 (Fin 1) (mul32 usq (mul32 (Fin (1 / 2)) c_sp32))),
       d_equ_dir32 w1_32 ld (u ! 1) usq,
       d_equ_dir32 w1_32 ld (u ! 2) usq,
       d_equ_dir32 w1_32 ld (u ! 3) usq,
       d_equ_dir32 w1_32 ld (u ! 4) usq,
       d_equ_dir32 w2_32 ld (u ! 5) usq,
       d_equ_dir32 w2_32 ld (u ! 6) usq,
       d_equ_dir32 w2_32 ld (u ! 7) usq,
       d_equ_dir32 w2_32 ld (u ! 8) usq ])"

text \<open>Lines 324-332: \<open>prop + params.omega * (d_equ - prop)\<close>, for the nine directions.\<close>

definition relax_dir32 :: "t_param \<Rightarrow> f32 \<Rightarrow> f32 \<Rightarrow> f32" where
  "relax_dir32 p x e = add32 x (mul32 (fl (omega p)) (sub32 e x))"

definition relax32 :: "t_param \<Rightarrow> f32 list \<Rightarrow> f32 list \<Rightarrow> f32 list" where
  "relax32 p pr de =
    [ relax_dir32 p (pr ! 0) (de ! 0), relax_dir32 p (pr ! 1) (de ! 1),
      relax_dir32 p (pr ! 2) (de ! 2), relax_dir32 p (pr ! 3) (de ! 3),
      relax_dir32 p (pr ! 4) (de ! 4), relax_dir32 p (pr ! 5) (de ! 5),
      relax_dir32 p (pr ! 6) (de ! 6), relax_dir32 p (pr ! 7) (de ! 7),
      relax_dir32 p (pr ! 8) (de ! 8) ]"

text \<open>Lines 287-337: the open branch. Whatever the nine relaxed values are, they are
  stored.\<close>

definition collision_cell32 :: "t_param \<Rightarrow> t_speeds32 \<Rightarrow> int \<Rightarrow> f32 list \<Rightarrow> (t_speeds32 \<times> f32) option" where
  "collision_cell32 p t k pr = do {
     let ux = u_x32 pr;
     let uy = u_y32 pr;
     let nv = relax32 p pr (d_equ32 (local_density32 pr) ux uy);
     n0 \<leftarrow> wr (s0_32 t) k (nv ! 0);
     n1 \<leftarrow> wr (s1_32 t) k (nv ! 1);
     n2 \<leftarrow> wr (s2_32 t) k (nv ! 2);
     n3 \<leftarrow> wr (s3_32 t) k (nv ! 3);
     n4 \<leftarrow> wr (s4_32 t) k (nv ! 4);
     n5 \<leftarrow> wr (s5_32 t) k (nv ! 5);
     n6 \<leftarrow> wr (s6_32 t) k (nv ! 6);
     n7 \<leftarrow> wr (s7_32 t) k (nv ! 7);
     n8 \<leftarrow> wr (s8_32 t) k (nv ! 8);
     Some (\<lparr>s0_32 = n0, s1_32 = n1, s2_32 = n2, s3_32 = n3, s4_32 = n4,
            s5_32 = n5, s6_32 = n6, s7_32 = n7, s8_32 = n8\<rparr>,
           u_sq32 ux uy)
   }"

definition timestep_cell32 :: "t_param \<Rightarrow> int \<Rightarrow> int \<Rightarrow> t_loop32 \<Rightarrow> t_loop32 option" where
  "timestep_cell32 p jj ii st =
    (let m = mem32 st in do {
       pr \<leftarrow> propagate_cell32 p (cells32 m) jj ii;
       ob \<leftarrow> rd (obstacles32 m) (jj * nx p + ii);
       if ob \<noteq> 0
       then do {
         t \<leftarrow> rebound_cell32 (tmp_cells32 m) (ii + jj * nx p) pr;
         Some (st\<lparr>mem32 := m\<lparr>tmp_cells32 := t\<rparr>\<rparr>)
       }
       else do {
         (t, usq) \<leftarrow> collision_cell32 p (tmp_cells32 m) (ii + jj * nx p) pr;
         Some (st\<lparr>mem32 := m\<lparr>tmp_cells32 := t\<rparr>,
                  tot_cells32 := tot_cells32 st + 1,
                  tot_u32 := add32 (tot_u32 st) (sqrt32 usq)\<rparr>)
       }
     })"

function timestep_ii32 :: "t_param \<Rightarrow> int \<Rightarrow> int \<Rightarrow> t_loop32 \<Rightarrow> t_loop32 option" where
  "timestep_ii32 p jj ii st =
    (if ii < nx p
     then do { st' \<leftarrow> timestep_cell32 p jj ii st; timestep_ii32 p jj (ii + 1) st' }
     else Some st)"
  by pat_completeness auto
termination
  by (relation "measure (\<lambda>(p, jj, ii, st). nat (nx p - ii))") auto

declare timestep_ii32.simps [simp del]

function timestep_jj32 :: "t_param \<Rightarrow> int \<Rightarrow> t_loop32 \<Rightarrow> t_loop32 option" where
  "timestep_jj32 p jj st =
    (if jj < ny p
     then do { st' \<leftarrow> timestep_ii32 p jj 0 st; timestep_jj32 p (jj + 1) st' }
     else Some st)"
  by pat_completeness auto
termination
  by (relation "measure (\<lambda>(p, jj, st). nat (ny p - jj))") auto

declare timestep_jj32.simps [simp del]

text \<open>The stream-collide pass, and \<open>timestep\<close> with its returned
  \<open>tot_u / (float)tot_cells\<close>; the conversion of \<open>tot_cells\<close> rounds to nearest.\<close>

definition stream_collide32 :: "t_param \<Rightarrow> t_state32 \<Rightarrow> t_loop32 option" where
  "stream_collide32 p m = timestep_jj32 p 0 \<lparr>mem32 = m, tot_cells32 = 0, tot_u32 = Fin 0\<rparr>"

definition timestep32 :: "t_param \<Rightarrow> t_state32 \<Rightarrow> (t_state32 \<times> f32) option" where
  "timestep32 p m = do {
     m1 \<leftarrow> accelerate_flow32 p m;
     st \<leftarrow> stream_collide32 p m1;
     Some (mem32 st, div32 (tot_u32 st) (fl (real_of_int (tot_cells32 st))))
   }"

subsection \<open>Vocabulary for the properties in binary32\<close>

text \<open>Well-formed memory, cells, streamed values and the values of a cell after the loop body,
  as for the first embedding. \<open>equilibrium32 pr\<close> is the array \<open>d_equ\<close> that the collide step
  computes from the streamed values \<open>pr\<close>.\<close>

definition wf_grid32 :: "t_param \<Rightarrow> t_speeds32 \<Rightarrow> bool" where
  "wf_grid32 p c \<longleftrightarrow> list_all (\<lambda>xs. int (length xs) = nx p * ny p)
      [s0_32 c, s1_32 c, s2_32 c, s3_32 c, s4_32 c, s5_32 c, s6_32 c, s7_32 c, s8_32 c]"

definition wf_state32 :: "t_param \<Rightarrow> t_state32 \<Rightarrow> bool" where
  "wf_state32 p m \<longleftrightarrow> 0 < nx p \<and> 0 < ny p \<and> nx p * ny p \<le> 2147483647 \<and>
     wf_grid32 p (cells32 m) \<and> wf_grid32 p (tmp_cells32 m) \<and>
     int (length (obstacles32 m)) = nx p * ny p"

definition speed32 :: "t_speeds32 \<Rightarrow> nat \<Rightarrow> f32 list" where
  "speed32 c d = [s0_32 c, s1_32 c, s2_32 c, s3_32 c, s4_32 c, s5_32 c, s6_32 c, s7_32 c, s8_32 c] ! d"

definition cell_at32 :: "t_speeds32 \<Rightarrow> nat \<Rightarrow> f32 list" where
  "cell_at32 c k = [s0_32 c ! k, s1_32 c ! k, s2_32 c ! k, s3_32 c ! k, s4_32 c ! k,
     s5_32 c ! k, s6_32 c ! k, s7_32 c ! k, s8_32 c ! k]"

definition set_cell32 :: "t_speeds32 \<Rightarrow> nat \<Rightarrow> f32 list \<Rightarrow> t_speeds32" where
  "set_cell32 t k vs = \<lparr>s0_32 = (s0_32 t)[k := vs ! 0], s1_32 = (s1_32 t)[k := vs ! 1],
     s2_32 = (s2_32 t)[k := vs ! 2], s3_32 = (s3_32 t)[k := vs ! 3], s4_32 = (s4_32 t)[k := vs ! 4],
     s5_32 = (s5_32 t)[k := vs ! 5], s6_32 = (s6_32 t)[k := vs ! 6], s7_32 = (s7_32 t)[k := vs ! 7],
     s8_32 = (s8_32 t)[k := vs ! 8]\<rparr>"

definition streamed32 :: "t_param \<Rightarrow> t_speeds32 \<Rightarrow> int \<Rightarrow> int \<Rightarrow> f32 list" where
  "streamed32 p c jj ii =
     map (\<lambda>d. speed32 c d ! nat ((ii - e_x d) mod nx p + ((jj - e_y d) mod ny p) * nx p))
       [0, 1, 2, 3, 4, 5, 6, 7, 8]"

definition equilibrium32 :: "f32 list \<Rightarrow> f32 list" where
  "equilibrium32 pr = d_equ32 (local_density32 pr) (u_x32 pr) (u_y32 pr)"

definition cell_speed32 :: "f32 list \<Rightarrow> f32" where
  "cell_speed32 pr = sqrt32 (u_sq32 (u_x32 pr) (u_y32 pr))"

definition cell_new32 :: "t_param \<Rightarrow> t_state32 \<Rightarrow> int \<Rightarrow> int \<Rightarrow> f32 list" where
  "cell_new32 p m jj ii =
    (let pr = streamed32 p (cells32 m) jj ii in
     if is_open p (obstacles32 m) jj ii
     then relax32 p pr (equilibrium32 pr)
     else [s0_32 (tmp_cells32 m) ! row_index p jj ii,
           pr ! 3, pr ! 4, pr ! 1, pr ! 2, pr ! 7, pr ! 8, pr ! 5, pr ! 6])"

text \<open>The nine values that a stream-collide pass leaves in the scratch grid, which becomes
  the next grid, for cell \<open>(ii, jj)\<close>.\<close>

definition next_cell32 :: "t_param \<Rightarrow> t_state32 \<Rightarrow> int \<Rightarrow> int \<Rightarrow> f32 list option" where
  "next_cell32 p m jj ii =
     map_option (\<lambda>st. cell_at32 (tmp_cells32 (mem32 st)) (row_index p jj ii)) (stream_collide32 p m)"

text \<open>A binary32 number between 0 and \<open>2^100\<close>, and a grid all of whose values are such.\<close>

definition bounded32 :: "f32 \<Rightarrow> bool" where
  "bounded32 v = (case v of Fin x \<Rightarrow> 0 \<le> x \<and> x \<le> 2 ^ 100 \<and> fl x = Fin x | _ \<Rightarrow> False)"

definition grid_bounded32 :: "t_speeds32 \<Rightarrow> bool" where
  "grid_bounded32 c \<longleftrightarrow> list_all (list_all bounded32)
      [s0_32 c, s1_32 c, s2_32 c, s3_32 c, s4_32 c, s5_32 c, s6_32 c, s7_32 c, s8_32 c]"

text \<open>Example states on the grid of \<open>ex_param\<close> (one column, two rows, \<open>omega = 1\<close>, no
  acceleration): every value 1, without obstacle and with both cells blocked; directions 1
  and 5 holding the binary32 number nearest to \<open>3e38\<close>; directions 1, 3 and 4 holding
  \<open>2^64\<close>, \<open>-2^64\<close> and 1, the others 0; and a state in which the values streamed into the
  open cell \<open>(0, 0)\<close> are \<open>11, 1, 1000, 1, 1000, 1, 1, 1, 1\<close>.\<close>

definition const_grid32 :: "f32 \<Rightarrow> t_speeds32" where
  "const_grid32 v = \<lparr>s0_32 = [v, v], s1_32 = [v, v], s2_32 = [v, v], s3_32 = [v, v], s4_32 = [v, v],
     s5_32 = [v, v], s6_32 = [v, v], s7_32 = [v, v], s8_32 = [v, v]\<rparr>"

definition ex_open32 :: t_state32 where
  "ex_open32 = \<lparr>cells32 = const_grid32 (Fin 1), tmp_cells32 = const_grid32 (Fin 7), obstacles32 = [0, 0]\<rparr>"

definition ex_blocked32 :: t_state32 where
  "ex_blocked32 = \<lparr>cells32 = const_grid32 (Fin 1), tmp_cells32 = const_grid32 (Fin 7), obstacles32 = [1, 1]\<rparr>"

definition ex_big32 :: t_state32 where
  "ex_big32 = \<lparr>cells32 = (const_grid32 (Fin 1))
       \<lparr>s1_32 := [Fin 300000000549775575777803994281145270272,
                   Fin 300000000549775575777803994281145270272],
        s5_32 := [Fin 300000000549775575777803994281145270272,
                   Fin 300000000549775575777803994281145270272]\<rparr>,
     tmp_cells32 = const_grid32 (Fin 7), obstacles32 = [0, 0]\<rparr>"

definition ex_signs32 :: t_state32 where
  "ex_signs32 = \<lparr>cells32 = (const_grid32 (Fin 0))
       \<lparr>s1_32 := [Fin 18446744073709551616, Fin 18446744073709551616],
        s3_32 := [Fin (- 18446744073709551616), Fin (- 18446744073709551616)],
        s4_32 := [Fin 1, Fin 1]\<rparr>,
     tmp_cells32 = const_grid32 (Fin 7), obstacles32 = [0, 0]\<rparr>"

definition ex_round32 :: t_state32 where
  "ex_round32 = \<lparr>cells32 = \<lparr>s0_32 = [Fin 11, Fin 1], s1_32 = [Fin 1, Fin 1],
       s2_32 = [Fin 1, Fin 1000], s3_32 = [Fin 1, Fin 1], s4_32 = [Fin 1, Fin 1000],
       s5_32 = [Fin 1, Fin 1], s6_32 = [Fin 1, Fin 1], s7_32 = [Fin 1, Fin 1],
       s8_32 = [Fin 1, Fin 1]\<rparr>,
     tmp_cells32 = const_grid32 (Fin 7), obstacles32 = [0, 1]\<rparr>"

section \<open>Properties\<close>

subsection \<open>Lists of nine values, array access, indices\<close>

lemma list9: "length xs = 9 \<Longrightarrow> xs = [xs ! 0, xs ! 1, xs ! 2, xs ! 3, xs ! 4, xs ! 5, xs ! 6, xs ! 7, xs ! 8]"
  by (auto simp: length_Suc_conv numeral_eq_Suc)

lemma sum_list9:
  "length xs = 9 \<Longrightarrow>
     sum_list xs = xs ! 0 + xs ! 1 + xs ! 2 + xs ! 3 + xs ! 4 + xs ! 5 + xs ! 6 + xs ! 7 + xs ! 8"
  by (subst list9 [of xs]) (simp_all del: One_nat_def add: add.assoc)

lemma length_d_equ: "length (d_equ ld ux uy) = 9"
  by (simp add: d_equ_def Let_def)

lemma length_relax: "length (relax p pr de) = 9"
  by (simp add: relax_def)

lemma relax_omega1: "omega p = 1 \<Longrightarrow> length de = 9 \<Longrightarrow> relax p pr de = de"
  using list9 [of de] by (simp add: relax_def)

lemma rd_in [simp]: "0 \<le> i \<Longrightarrow> i < int (length xs) \<Longrightarrow> rd xs i = Some (xs ! nat i)"
  by (simp add: rd_def)

lemma wr_in [simp]: "0 \<le> i \<Longrightarrow> i < int (length xs) \<Longrightarrow> wr xs i v = Some (xs[nat i := v])"
  by (simp add: wr_def)

lemma idx_bounds:
  assumes "0 \<le> i" "i < n" "0 \<le> j" "j < m"
  shows "0 \<le> i + j * n" "i + j * n < n * (m::int)"
proof -
  show "0 \<le> i + j * n" using assms by simp
  have "j + 1 \<le> m" using assms by simp
  then have "(j + 1) * n \<le> m * n" using assms by (intro mult_right_mono) auto
  then show "i + j * n < n * m" using assms by (simp add: algebra_simps)
qed

lemma row_index_inj:
  "0 \<le> ii \<Longrightarrow> ii < nx p \<Longrightarrow> 0 \<le> ii' \<Longrightarrow> ii' < nx p \<Longrightarrow> 0 \<le> jj \<Longrightarrow> 0 \<le> jj' \<Longrightarrow>
    row_index p jj ii = row_index p jj' ii' \<longleftrightarrow> jj = jj' \<and> ii = ii'"
proof -
  assume a: "0 \<le> ii" "ii < nx p" "0 \<le> ii'" "ii' < nx p" "0 \<le> jj" "0 \<le> jj'"
  have "ii + jj * nx p = ii' + jj' * nx p \<Longrightarrow> jj = jj' \<and> ii = ii'"
  proof -
    assume e: "ii + jj * nx p = ii' + jj' * nx p"
    have "(ii + jj * nx p) div nx p = jj" "(ii' + jj' * nx p) div nx p = jj'"
      using a by (simp_all add: div_pos_pos_trivial)
    with e have "jj = jj'" by simp
    with e show ?thesis by simp
  qed
  moreover have "0 \<le> ii + jj * nx p" "0 \<le> ii' + jj' * nx p" using a by simp_all
  ultimately show ?thesis by (auto simp: row_index_def)
qed

lemma wf_grid_len:
  assumes "wf_grid p c"
  shows "int (length (s0 c)) = nx p * ny p" "int (length (s1 c)) = nx p * ny p"
    "int (length (s2 c)) = nx p * ny p" "int (length (s3 c)) = nx p * ny p"
    "int (length (s4 c)) = nx p * ny p" "int (length (s5 c)) = nx p * ny p"
    "int (length (s6 c)) = nx p * ny p" "int (length (s7 c)) = nx p * ny p"
    "int (length (s8 c)) = nx p * ny p"
  using assms by (simp_all add: wf_grid_def)

lemma same_length: "int (length xs) = n \<Longrightarrow> int (length ys) = n \<Longrightarrow> length ys = length xs"
  by simp

lemma nth_eq_lists: "length xs = length ys \<Longrightarrow> (\<And>k. xs ! k = ys ! k) \<Longrightarrow> xs = ys"
  by (simp add: list_eq_iff_nth_eq)

lemma cell_at_eq_grid:
  assumes "wf_grid p c" "wf_grid p c'" "\<And>k. cell_at c' k = cell_at c k"
  shows "c' = c"
proof -
  note l = wf_grid_len [OF assms(1)] and l' = wf_grid_len [OF assms(2)]
  have pt: "s0 c' ! k = s0 c ! k" "s1 c' ! k = s1 c ! k" "s2 c' ! k = s2 c ! k"
    "s3 c' ! k = s3 c ! k" "s4 c' ! k = s4 c ! k" "s5 c' ! k = s5 c ! k"
    "s6 c' ! k = s6 c ! k" "s7 c' ! k = s7 c ! k" "s8 c' ! k = s8 c ! k" for k
    using assms(3) [of k] by (simp_all add: cell_at_def)
  have "s0 c' = s0 c" by (rule nth_eq_lists [OF same_length [OF l(1) l'(1)] pt(1)])
  moreover have "s1 c' = s1 c" by (rule nth_eq_lists [OF same_length [OF l(2) l'(2)] pt(2)])
  moreover have "s2 c' = s2 c" by (rule nth_eq_lists [OF same_length [OF l(3) l'(3)] pt(3)])
  moreover have "s3 c' = s3 c" by (rule nth_eq_lists [OF same_length [OF l(4) l'(4)] pt(4)])
  moreover have "s4 c' = s4 c" by (rule nth_eq_lists [OF same_length [OF l(5) l'(5)] pt(5)])
  moreover have "s5 c' = s5 c" by (rule nth_eq_lists [OF same_length [OF l(6) l'(6)] pt(6)])
  moreover have "s6 c' = s6 c" by (rule nth_eq_lists [OF same_length [OF l(7) l'(7)] pt(7)])
  moreover have "s7 c' = s7 c" by (rule nth_eq_lists [OF same_length [OF l(8) l'(8)] pt(8)])
  moreover have "s8 c' = s8 c" by (rule nth_eq_lists [OF same_length [OF l(9) l'(9)] pt(9)])
  ultimately show ?thesis by (intro t_speeds.equality) simp_all
qed

subsection \<open>The acceleration stage\<close>

lemma accelerate_cell_wf:
  assumes "wf_grid p (cells m)" "int (length (obstacles m)) = nx p * ny p"
    and k: "0 \<le> ii + (ny p - 2) * nx p" "ii + (ny p - 2) * nx p < nx p * ny p"
  shows "accelerate_cell p ii m =
    Some (if accel_guard p m (nat (ii + (ny p - 2) * nx p))
          then m\<lparr>cells := accel_apply p (cells m) (nat (ii + (ny p - 2) * nx p))\<rparr> else m)"
  using wf_grid_len [OF assms(1)] assms(2) k
  by (simp add: accelerate_cell_def Let_def accel_guard_def accel_apply_def accel_w1_def accel_w2_def)

lemma wf_grid_accel_apply: "wf_grid p (accel_apply p c k) = wf_grid p c"
  by (simp add: wf_grid_def accel_apply_def)

lemma cell_at_accel_apply:
  "wf_grid p c \<Longrightarrow> int k < nx p * ny p \<Longrightarrow> cell_at (accel_apply p c k) k' =
    (if k' = k then [s0 c ! k, s1 c ! k + accel_w1 p, s2 c ! k, s3 c ! k - accel_w1 p, s4 c ! k,
        s5 c ! k + accel_w2 p, s6 c ! k - accel_w2 p, s7 c ! k - accel_w2 p, s8 c ! k + accel_w2 p]
     else cell_at c k')"
  using wf_grid_len [of p c] by (simp add: cell_at_def accel_apply_def)

lemma accel_guard_cong:
  "obstacles m' = obstacles m \<Longrightarrow> cell_at (cells m') k = cell_at (cells m) k \<Longrightarrow>
    accel_guard p m' k = accel_guard p m k"
  by (simp add: accel_guard_def cell_at_def)

lemma accel_apply_cong:
  "wf_grid p c \<Longrightarrow> wf_grid p c' \<Longrightarrow> int k < nx p * ny p \<Longrightarrow> cell_at c' k = cell_at c k \<Longrightarrow>
    cell_at (accel_apply p c' k) k = cell_at (accel_apply p c k) k"
  by (simp add: cell_at_accel_apply) (simp add: cell_at_def)

lemma accelerate_loop_result:
  assumes "wf_grid p (cells m)" "int (length (obstacles m)) = nx p * ny p" "2 \<le> ny p" "0 \<le> i0"
  shows "\<exists>m'. accelerate_loop p i0 m = Some m' \<and> tmp_cells m' = tmp_cells m \<and>
      obstacles m' = obstacles m \<and> wf_grid p (cells m') \<and>
      (\<forall>ii. i0 \<le> ii \<and> ii < nx p \<longrightarrow>
         cell_at (cells m') (row_index p (ny p - 2) ii) =
           (if accel_guard p m (row_index p (ny p - 2) ii)
            then cell_at (accel_apply p (cells m) (row_index p (ny p - 2) ii)) (row_index p (ny p - 2) ii)
            else cell_at (cells m) (row_index p (ny p - 2) ii))) \<and>
      (\<forall>k. (\<forall>ii. i0 \<le> ii \<and> ii < nx p \<longrightarrow> k \<noteq> row_index p (ny p - 2) ii) \<longrightarrow>
         cell_at (cells m') k = cell_at (cells m) k)"
  using assms
proof (induction p i0 m rule: accelerate_loop.induct)
  case (1 p i0 m)
  let ?R = "row_index p (ny p - 2)"
  show ?case
  proof (cases "i0 < nx p")
    case False
    then show ?thesis using "1.prems" by (subst accelerate_loop.simps) auto
  next
    case True
    have kb: "0 \<le> i0 + (ny p - 2) * nx p" "i0 + (ny p - 2) * nx p < nx p * ny p"
      using idx_bounds [of i0 "nx p" "ny p - 2" "ny p"] True "1.prems" by simp_all
    define m1 where "m1 = (if accel_guard p m (?R i0)
       then m\<lparr>cells := accel_apply p (cells m) (?R i0)\<rparr> else m)"
    have step: "accelerate_cell p i0 m = Some m1"
      using accelerate_cell_wf [OF "1.prems"(1,2) kb] by (simp add: m1_def row_index_def)
    have m1: "wf_grid p (cells m1)" "int (length (obstacles m1)) = nx p * ny p"
      "tmp_cells m1 = tmp_cells m" "obstacles m1 = obstacles m"
      using "1.prems" by (simp_all add: m1_def wf_grid_accel_apply)
    have kR: "int (?R i0) < nx p * ny p" using kb by (simp add: row_index_def)
    have m1_at: "\<And>k. cell_at (cells m1) k =
       (if k = ?R i0 \<and> accel_guard p m k then cell_at (accel_apply p (cells m) k) k
        else cell_at (cells m) k)"
      using "1.prems"(1) kR by (auto simp: m1_def cell_at_accel_apply)
    from "1.IH" [OF True step m1(1,2) "1.prems"(3)] "1.prems"(4)
    obtain m' where m': "accelerate_loop p (i0 + 1) m1 = Some m'" "tmp_cells m' = tmp_cells m1"
      "obstacles m' = obstacles m1" "wf_grid p (cells m')"
      and inrow: "\<And>ii. i0 + 1 \<le> ii \<Longrightarrow> ii < nx p \<Longrightarrow>
         cell_at (cells m') (?R ii) =
           (if accel_guard p m1 (?R ii)
            then cell_at (accel_apply p (cells m1) (?R ii)) (?R ii)
            else cell_at (cells m1) (?R ii))"
      and frame: "\<And>k. (\<forall>ii. i0 + 1 \<le> ii \<and> ii < nx p \<longrightarrow> k \<noteq> ?R ii) \<Longrightarrow>
         cell_at (cells m') k = cell_at (cells m1) k"
      by auto
    have loop: "accelerate_loop p i0 m = Some m'"
      using True step m'(1) by (subst accelerate_loop.simps) simp
    have ne: "\<And>ii. i0 + 1 \<le> ii \<Longrightarrow> ii < nx p \<Longrightarrow> ?R ii \<noteq> ?R i0"
      using row_index_inj [of _ p i0 "ny p - 2" "ny p - 2"] "1.prems"(3,4) True by auto
    have row: "cell_at (cells m') (?R ii) =
           (if accel_guard p m (?R ii)
            then cell_at (accel_apply p (cells m) (?R ii)) (?R ii)
            else cell_at (cells m) (?R ii))" if ii: "i0 \<le> ii" "ii < nx p" for ii
    proof (cases "ii = i0")
      case True
      have "\<forall>ii. i0 + 1 \<le> ii \<and> ii < nx p \<longrightarrow> ?R i0 \<noteq> ?R ii"
        using ne by fastforce
      then have "cell_at (cells m') (?R i0) = cell_at (cells m1) (?R i0)"
        by (rule frame)
      then show ?thesis using True m1_at by simp
    next
      case False
      then have ii': "i0 + 1 \<le> ii" using ii by simp
      have same: "cell_at (cells m1) (?R ii) = cell_at (cells m) (?R ii)"
        using m1_at ne [OF ii' ii(2)] by simp
      have kb': "int (?R ii) < nx p * ny p"
        using idx_bounds [of ii "nx p" "ny p - 2" "ny p"] ii "1.prems" by (simp add: row_index_def)
      show ?thesis
        using inrow [OF ii' ii(2)] same accel_guard_cong [OF m1(4) same]
          accel_apply_cong [OF "1.prems"(1) m1(1) kb' same] by simp
    qed
    have fr: "cell_at (cells m') k = cell_at (cells m) k"
      if "\<forall>ii. i0 \<le> ii \<and> ii < nx p \<longrightarrow> k \<noteq> ?R ii" for k
    proof -
      have "k \<noteq> ?R i0" using that True by auto
      moreover have "\<forall>ii. i0 + 1 \<le> ii \<and> ii < nx p \<longrightarrow> k \<noteq> ?R ii"
        using that by simp
      then have "cell_at (cells m') k = cell_at (cells m1) k" by (rule frame)
      ultimately show ?thesis using m1_at by simp
    qed
    show ?thesis using loop m' m1 row fr by auto
  qed
qed

lemma accelerate_flow_result:
  assumes "wf_state p m" "2 \<le> ny p"
  shows "\<exists>m'. accelerate_flow p m = Some m' \<and> tmp_cells m' = tmp_cells m \<and>
      obstacles m' = obstacles m \<and> wf_state p m' \<and>
      (\<forall>ii. 0 \<le> ii \<and> ii < nx p \<longrightarrow>
         cell_at (cells m') (row_index p (ny p - 2) ii) =
           (if accel_guard p m (row_index p (ny p - 2) ii)
            then cell_at (accel_apply p (cells m) (row_index p (ny p - 2) ii)) (row_index p (ny p - 2) ii)
            else cell_at (cells m) (row_index p (ny p - 2) ii))) \<and>
      (\<forall>k. (\<forall>ii. 0 \<le> ii \<and> ii < nx p \<longrightarrow> k \<noteq> row_index p (ny p - 2) ii) \<longrightarrow>
         cell_at (cells m') k = cell_at (cells m) k)"
proof -
  have wf: "wf_grid p (cells m)" "int (length (obstacles m)) = nx p * ny p"
    using assms(1) by (simp_all add: wf_state_def)
  from accelerate_loop_result [OF wf assms(2) order_refl]
  obtain m' where m': "accelerate_loop p 0 m = Some m'" "tmp_cells m' = tmp_cells m"
      "obstacles m' = obstacles m" "wf_grid p (cells m')"
      and rest: "(\<forall>ii. 0 \<le> ii \<and> ii < nx p \<longrightarrow>
         cell_at (cells m') (row_index p (ny p - 2) ii) =
           (if accel_guard p m (row_index p (ny p - 2) ii)
            then cell_at (accel_apply p (cells m) (row_index p (ny p - 2) ii)) (row_index p (ny p - 2) ii)
            else cell_at (cells m) (row_index p (ny p - 2) ii)))"
      "(\<forall>k. (\<forall>ii. 0 \<le> ii \<and> ii < nx p \<longrightarrow> k \<noteq> row_index p (ny p - 2) ii) \<longrightarrow>
         cell_at (cells m') k = cell_at (cells m) k)"
    by blast
  have "wf_state p m'" using assms(1) m' by (simp add: wf_state_def)
  then show ?thesis using m' rest by (simp add: accelerate_flow_def)
qed

text \<open>With a single row the acceleration stage indexes row \<open>- 1\<close>: it leaves the arrays.\<close>

lemma accelerate_flow_rows:
  assumes "wf_state p m" "accelerate_flow p m = Some m1"
  shows "2 \<le> ny p"
proof (rule ccontr)
  assume "\<not> 2 \<le> ny p"
  then have ny: "ny p = 1" and nx: "0 < nx p" using assms(1) by (simp_all add: wf_state_def)
  have "accelerate_cell p 0 m = None"
    using nx by (simp add: accelerate_cell_def Let_def ny rd_def)
  then have "accelerate_flow p m = None"
    using nx by (simp add: accelerate_flow_def) (subst accelerate_loop.simps, simp)
  with assms(2) show False by simp
qed

lemma accelerate_flow_zero:
  assumes "wf_state p m" "2 \<le> ny p" "accel p = 0"
  shows "\<exists>m1. accelerate_flow p m = Some m1 \<and> cells m1 = cells m \<and> tmp_cells m1 = tmp_cells m \<and>
     obstacles m1 = obstacles m \<and> wf_state p m1"
proof -
  let ?R = "row_index p (ny p - 2)"
  have wf: "wf_grid p (cells m)" using assms(1) by (simp add: wf_state_def)
  have w: "accel_w1 p = 0" "accel_w2 p = 0" using assms(3) by (simp_all add: accel_w1_def accel_w2_def)
  from accelerate_flow_result [OF assms(1,2)]
  obtain m1 where m1: "accelerate_flow p m = Some m1" "tmp_cells m1 = tmp_cells m"
      "obstacles m1 = obstacles m" "wf_state p m1"
      and row: "\<And>ii. 0 \<le> ii \<Longrightarrow> ii < nx p \<Longrightarrow>
         cell_at (cells m1) (?R ii) =
           (if accel_guard p m (?R ii) then cell_at (accel_apply p (cells m) (?R ii)) (?R ii)
            else cell_at (cells m) (?R ii))"
      and frame: "\<And>k. (\<forall>ii. 0 \<le> ii \<and> ii < nx p \<longrightarrow> k \<noteq> ?R ii) \<Longrightarrow>
         cell_at (cells m1) k = cell_at (cells m) k"
    by blast
  have same: "cell_at (cells m1) k = cell_at (cells m) k" for k
  proof (cases "\<exists>ii. 0 \<le> ii \<and> ii < nx p \<and> k = ?R ii")
    case True
    then obtain ii where ii: "0 \<le> ii" "ii < nx p" "k = ?R ii" by blast
    have kb: "int (?R ii) < nx p * ny p"
      using idx_bounds [of ii "nx p" "ny p - 2" "ny p"] ii assms(2) by (simp add: row_index_def)
    have "cell_at (accel_apply p (cells m) (?R ii)) (?R ii) = cell_at (cells m) (?R ii)"
      using cell_at_accel_apply [OF wf kb, of "?R ii"] by (simp add: w cell_at_def)
    then show ?thesis using row [OF ii(1,2)] ii(3) by simp
  next
    case False
    then show ?thesis using frame [of k] by blast
  qed
  have wf1: "wf_grid p (cells m1)" using m1(4) by (simp add: wf_state_def)
  have "cells m1 = cells m" using cell_at_eq_grid [OF wf wf1 same] .
  then show ?thesis using m1 by blast
qed

subsection \<open>The loop body of the stream-collide pass\<close>

lemma propagate_cell_streamed:
  assumes "wf_grid p c" "0 \<le> ii" "ii < nx p" "0 \<le> jj" "jj < ny p"
  shows "propagate_cell p c jj ii = Some (streamed p c jj ii)"
proof -
  have n: "0 < nx p" "0 < ny p" using assms by auto
  note len = wf_grid_len [OF assms(1)]
  have xw: "(if ii = 0 then ii + nx p - 1 else ii - 1) = (ii - 1) mod nx p"
    using assms n by (auto simp: mod_pos_pos_trivial zmod_minus1)
  have ys: "(if jj = 0 then jj + ny p - 1 else jj - 1) = (jj - 1) mod ny p"
    using assms n by (auto simp: mod_pos_pos_trivial zmod_minus1)
  have x0: "ii mod nx p = ii" and y0: "jj mod ny p = jj"
    using assms by simp_all
  have bx: "\<And>a. 0 \<le> a mod nx p \<and> a mod nx p < nx p" using n by simp
  have by': "\<And>b. 0 \<le> b mod ny p \<and> b mod ny p < ny p" using n by simp
  have rdm: "\<And>xs a b. int (length xs) = nx p * ny p \<Longrightarrow>
      rd xs (a mod nx p + (b mod ny p) * nx p) = Some (xs ! nat (a mod nx p + (b mod ny p) * nx p))"
    using idx_bounds [OF conjunct1 [OF bx] conjunct2 [OF bx] conjunct1 [OF by'] conjunct2 [OF by']]
    by (simp add: rd_def)
  show ?thesis
    unfolding propagate_cell_def Let_def xw ys
    using rdm [OF len(1), of ii jj] rdm [OF len(2), of "ii - 1" jj] rdm [OF len(3), of ii "jj - 1"]
      rdm [OF len(4), of "ii + 1" jj] rdm [OF len(5), of ii "jj + 1"]
      rdm [OF len(6), of "ii - 1" "jj - 1"] rdm [OF len(7), of "ii + 1" "jj - 1"]
      rdm [OF len(8), of "ii + 1" "jj + 1"] rdm [OF len(9), of "ii - 1" "jj + 1"]
    by (simp add: x0 y0 streamed_def speed_def e_x_def e_y_def)
qed

lemma length_streamed: "length (streamed p c jj ii) = 9"
  by (simp add: streamed_def)

lemma wf_grid_set_cell: "wf_grid p (set_cell t k vs) = wf_grid p t"
  by (simp add: wf_grid_def set_cell_def)

lemma cell_at_set_cell:
  "wf_grid p t \<Longrightarrow> int k < nx p * ny p \<Longrightarrow> length vs = 9 \<Longrightarrow>
     cell_at (set_cell t k vs) k' = (if k' = k then vs else cell_at t k')"
  using wf_grid_len [of p t] list9 [of vs] by (simp add: cell_at_def set_cell_def)

lemma rebound_cell_wf:
  assumes "wf_grid p t" "0 \<le> k" "k < nx p * ny p"
  shows "rebound_cell t k pr = Some (set_cell t (nat k)
     [s0 t ! nat k, pr ! 3, pr ! 4, pr ! 1, pr ! 2, pr ! 7, pr ! 8, pr ! 5, pr ! 6])"
  using wf_grid_len [OF assms(1)] assms(2,3)
  by (simp add: rebound_cell_def set_cell_def)

lemma u_x_Some: "local_density pr \<noteq> 0 \<Longrightarrow> \<exists>v. u_x pr = Some v"
  by (simp add: u_x_def fdiv_def)

lemma u_y_Some: "local_density pr \<noteq> 0 \<Longrightarrow> \<exists>v. u_y pr = Some v"
  by (simp add: u_y_def fdiv_def)

lemma u_x_None: "local_density pr = 0 \<Longrightarrow> u_x pr = None"
  by (simp add: u_x_def fdiv_def)

lemma collision_cell_wf:
  assumes "wf_grid p t" "0 \<le> k" "k < nx p * ny p" "u_x pr = Some ux" "u_y pr = Some uy"
  shows "collision_cell p t k pr =
     Some (set_cell t (nat k) (relax p pr (d_equ (local_density pr) ux uy)), u_sq ux uy)"
  using wf_grid_len [OF assms(1)] assms(2-)
  by (simp add: collision_cell_def set_cell_def Let_def)

lemma collision_cell_None: "local_density pr = 0 \<Longrightarrow> collision_cell p t k pr = None"
  by (simp add: collision_cell_def u_x_None)

lemma timestep_cell_wf:
  assumes "wf_grid p (cells (mem st))" "wf_grid p (tmp_cells (mem st))"
    "int (length (obstacles (mem st))) = nx p * ny p"
    "0 \<le> ii" "ii < nx p" "0 \<le> jj" "jj < ny p"
  shows "timestep_cell p jj ii st =
    (if is_open p (obstacles (mem st)) jj ii
     then if local_density (streamed p (cells (mem st)) jj ii) = 0 then None
          else Some (st\<lparr>mem := (mem st)\<lparr>tmp_cells :=
                  set_cell (tmp_cells (mem st)) (row_index p jj ii) (cell_new p (mem st) jj ii)\<rparr>,
                tot_cells := tot_cells st + 1,
                tot_u := tot_u st + cell_speed (streamed p (cells (mem st)) jj ii)\<rparr>)
     else Some (st\<lparr>mem := (mem st)\<lparr>tmp_cells :=
                  set_cell (tmp_cells (mem st)) (row_index p jj ii) (cell_new p (mem st) jj ii)\<rparr>\<rparr>))"
proof -
  have kb: "0 \<le> ii + jj * nx p" "ii + jj * nx p < nx p * ny p"
    using idx_bounds [of ii "nx p" jj "ny p"] assms by simp_all
  have kb': "0 \<le> jj * nx p + ii" "jj * nx p + ii < int (length (obstacles (mem st)))"
    using kb assms(3) by (simp_all add: add.commute)
  have ob: "rd (obstacles (mem st)) (jj * nx p + ii) = Some (obstacles (mem st) ! row_index p jj ii)"
    using kb' by (simp add: rd_def row_index_def add.commute)
  note pc = propagate_cell_streamed [OF assms(1,4-7)]
  show ?thesis
  proof (cases "is_open p (obstacles (mem st)) jj ii")
    case False
    then show ?thesis
      using pc ob rebound_cell_wf [OF assms(2) kb]
      by (simp add: timestep_cell_def Let_def is_open_def cell_new_def row_index_def)
  next
    case True
    show ?thesis
    proof (cases "local_density (streamed p (cells (mem st)) jj ii) = 0")
      case True
      then show ?thesis
        using pc ob \<open>is_open p (obstacles (mem st)) jj ii\<close>
        by (simp add: timestep_cell_def Let_def is_open_def collision_cell_None)
    next
      case False
      from u_x_Some [OF False] u_y_Some [OF False] obtain ux uy where
        u: "u_x (streamed p (cells (mem st)) jj ii) = Some ux"
           "u_y (streamed p (cells (mem st)) jj ii) = Some uy" by blast
      show ?thesis
        using pc ob True False u collision_cell_wf [OF assms(2) kb u]
        by (simp add: timestep_cell_def Let_def is_open_def cell_new_def row_index_def cell_speed_def)
    qed
  qed
qed

lemma timestep_cell_Some:
  assumes "wf_grid p (cells (mem st))" "wf_grid p (tmp_cells (mem st))"
    "int (length (obstacles (mem st))) = nx p * ny p"
    "0 \<le> ii" "ii < nx p" "0 \<le> jj" "jj < ny p"
    "timestep_cell p jj ii st = Some st1"
  shows "cells (mem st1) = cells (mem st) \<and> obstacles (mem st1) = obstacles (mem st) \<and>
    wf_grid p (tmp_cells (mem st1)) \<and>
    (is_open p (obstacles (mem st)) jj ii \<longrightarrow> local_density (streamed p (cells (mem st)) jj ii) \<noteq> 0)"
  using assms(8) unfolding timestep_cell_wf [OF assms(1-7)]
  by (auto split: if_splits simp: wf_grid_set_cell assms(2))

subsection \<open>The open cells\<close>

lemma open_cols_step:
  "i0 < nx p \<Longrightarrow> open_cols p obs jj i0 =
     (if is_open p obs jj i0 then [i0] else []) @ open_cols p obs jj (i0 + 1)"
  by (simp add: open_cols_def upto_rec1)

lemma open_cols_done: "\<not> i0 < nx p \<Longrightarrow> open_cols p obs jj i0 = []"
  by (simp add: open_cols_def)

lemma open_cells_from_step:
  "j0 < ny p \<Longrightarrow> open_cells_from p obs j0 =
     map (Pair j0) (open_cols p obs j0 0) @ open_cells_from p obs (j0 + 1)"
  by (simp add: open_cells_from_def upto_rec1)

lemma open_cells_from_done: "\<not> j0 < ny p \<Longrightarrow> open_cells_from p obs j0 = []"
  by (simp add: open_cells_from_def)

lemma set_open_cells_from:
  "set (open_cells_from p obs j0) =
     {(jj, ii). j0 \<le> jj \<and> jj < ny p \<and> 0 \<le> ii \<and> ii < nx p \<and> is_open p obs jj ii}"
  by (auto simp: open_cells_from_def open_cols_def)

lemma all_blocked_no_open:
  assumes "0 < nx p" "int (length obs) = nx p * ny p" "\<forall>k < length obs. obs ! k \<noteq> 0"
  shows "open_cells_from p obs 0 = []"
proof -
  have "\<not> is_open p obs jj ii" if "0 \<le> jj" "jj < ny p" "0 \<le> ii" "ii < nx p" for jj ii
  proof -
    have "row_index p jj ii < length obs"
      using idx_bounds [of ii "nx p" jj "ny p"] that assms(2)
      by (simp add: row_index_def nat_less_iff)
    then show ?thesis using assms(3) by (simp add: is_open_def)
  qed
  then have "set (open_cells_from p obs 0) = {}"
    by (auto simp: set_open_cells_from)
  then show ?thesis by simp
qed

subsection \<open>The loops of the stream-collide pass\<close>

lemma cell_new_cong:
  "cells m' = cells m \<Longrightarrow> obstacles m' = obstacles m \<Longrightarrow>
    cell_at (tmp_cells m') (row_index p jj ii) = cell_at (tmp_cells m) (row_index p jj ii) \<Longrightarrow>
    cell_new p m' jj ii = cell_new p m jj ii"
  by (simp add: cell_new_def cell_at_def Let_def)

lemma timestep_ii_result:
  assumes "wf_grid p (cells (mem st))" "wf_grid p (tmp_cells (mem st))"
    "int (length (obstacles (mem st))) = nx p * ny p" "0 \<le> jj" "jj < ny p" "0 \<le> i0"
    "\<forall>ii. i0 \<le> ii \<and> ii < nx p \<and> is_open p (obstacles (mem st)) jj ii \<longrightarrow>
        local_density (streamed p (cells (mem st)) jj ii) \<noteq> 0"
  shows "\<exists>st'. timestep_ii p jj i0 st = Some st' \<and> cells (mem st') = cells (mem st) \<and>
      obstacles (mem st') = obstacles (mem st) \<and> wf_grid p (tmp_cells (mem st')) \<and>
      (\<forall>ii. i0 \<le> ii \<and> ii < nx p \<longrightarrow>
         cell_at (tmp_cells (mem st')) (row_index p jj ii) = cell_new p (mem st) jj ii) \<and>
      (\<forall>k. (\<forall>ii. i0 \<le> ii \<and> ii < nx p \<longrightarrow> k \<noteq> row_index p jj ii) \<longrightarrow>
         cell_at (tmp_cells (mem st')) k = cell_at (tmp_cells (mem st)) k) \<and>
      tot_cells st' = tot_cells st + int (length (open_cols p (obstacles (mem st)) jj i0)) \<and>
      tot_u st' = tot_u st + sum_list (map (\<lambda>ii. cell_speed (streamed p (cells (mem st)) jj ii))
                                          (open_cols p (obstacles (mem st)) jj i0))"
  using assms
proof (induction p jj i0 st rule: timestep_ii.induct)
  case (1 p jj i0 st)
  let ?R = "row_index p jj"
  let ?m = "mem st"
  show ?case
  proof (cases "i0 < nx p")
    case False
    then show ?thesis using "1.prems" by (subst timestep_ii.simps) (auto simp: open_cols_done)
  next
    case True
    have kR: "int (?R i0) < nx p * ny p"
      using idx_bounds [of i0 "nx p" jj "ny p"] True "1.prems" by (simp add: row_index_def)
    define t1 where "t1 = set_cell (tmp_cells ?m) (?R i0) (cell_new p ?m jj i0)"
    define st1 where "st1 = (if is_open p (obstacles ?m) jj i0
       then st\<lparr>mem := ?m\<lparr>tmp_cells := t1\<rparr>, tot_cells := tot_cells st + 1,
                tot_u := tot_u st + cell_speed (streamed p (cells ?m) jj i0)\<rparr>
       else st\<lparr>mem := ?m\<lparr>tmp_cells := t1\<rparr>\<rparr>)"
    have nz0: "is_open p (obstacles ?m) jj i0 \<Longrightarrow> local_density (streamed p (cells ?m) jj i0) \<noteq> 0"
      using "1.prems"(6,7) True by auto
    have step: "timestep_cell p jj i0 st = Some st1"
      using timestep_cell_wf [OF "1.prems"(1,2,3,6) True "1.prems"(4,5)] nz0
      by (auto simp: st1_def t1_def)
    have st1: "cells (mem st1) = cells ?m" "obstacles (mem st1) = obstacles ?m"
      "tmp_cells (mem st1) = t1"
      by (simp_all add: st1_def)
    have wf1: "wf_grid p (cells (mem st1))" "wf_grid p (tmp_cells (mem st1))"
      "int (length (obstacles (mem st1))) = nx p * ny p"
      using "1.prems" by (simp_all add: st1 t1_def wf_grid_set_cell)
    have len_new: "length (cell_new p ?m jj i0) = 9"
      by (simp add: cell_new_def Let_def length_relax)
    have t1_at: "\<And>k. cell_at t1 k = (if k = ?R i0 then cell_new p ?m jj i0 else cell_at (tmp_cells ?m) k)"
      unfolding t1_def using cell_at_set_cell [OF "1.prems"(2) kR len_new] by simp
    have nz1: "\<forall>ii. i0 + 1 \<le> ii \<and> ii < nx p \<and> is_open p (obstacles (mem st1)) jj ii \<longrightarrow>
        local_density (streamed p (cells (mem st1)) jj ii) \<noteq> 0"
      using "1.prems"(7) by (simp add: st1)
    have i1: "0 \<le> i0 + 1" using "1.prems"(6) by simp
    from "1.IH" [OF True step wf1 "1.prems"(4,5) i1 nz1]
    obtain st' where st': "timestep_ii p jj (i0 + 1) st1 = Some st'"
      "cells (mem st') = cells (mem st1)" "obstacles (mem st') = obstacles (mem st1)"
      "wf_grid p (tmp_cells (mem st'))"
      "tot_cells st' = tot_cells st1 + int (length (open_cols p (obstacles (mem st1)) jj (i0 + 1)))"
      "tot_u st' = tot_u st1 + sum_list (map (\<lambda>ii. cell_speed (streamed p (cells (mem st1)) jj ii))
                                          (open_cols p (obstacles (mem st1)) jj (i0 + 1)))"
      and inrow: "\<And>ii. i0 + 1 \<le> ii \<Longrightarrow> ii < nx p \<Longrightarrow>
         cell_at (tmp_cells (mem st')) (?R ii) = cell_new p (mem st1) jj ii"
      and frame: "\<And>k. (\<forall>ii. i0 + 1 \<le> ii \<and> ii < nx p \<longrightarrow> k \<noteq> ?R ii) \<Longrightarrow>
         cell_at (tmp_cells (mem st')) k = cell_at (tmp_cells (mem st1)) k"
      by auto
    have loop: "timestep_ii p jj i0 st = Some st'"
      using True step st'(1) by (subst timestep_ii.simps) simp
    have ne: "\<And>ii. i0 + 1 \<le> ii \<Longrightarrow> ii < nx p \<Longrightarrow> ?R ii \<noteq> ?R i0"
      using row_index_inj [of _ p i0 jj jj] "1.prems"(4,6) True by auto
    have row: "cell_at (tmp_cells (mem st')) (?R ii) = cell_new p ?m jj ii"
      if ii: "i0 \<le> ii" "ii < nx p" for ii
    proof (cases "ii = i0")
      case True
      have "\<forall>ii. i0 + 1 \<le> ii \<and> ii < nx p \<longrightarrow> ?R i0 \<noteq> ?R ii"
        using ne by fastforce
      then have "cell_at (tmp_cells (mem st')) (?R i0) = cell_at (tmp_cells (mem st1)) (?R i0)"
        by (rule frame)
      then show ?thesis using True t1_at st1 by simp
    next
      case False
      then have ii': "i0 + 1 \<le> ii" using ii by simp
      have same: "cell_at (tmp_cells (mem st1)) (?R ii) = cell_at (tmp_cells ?m) (?R ii)"
        using t1_at ne [OF ii' ii(2)] st1 by simp
      show ?thesis
        using inrow [OF ii' ii(2)] cell_new_cong [OF st1(1,2) same] by simp
    qed
    have fr: "cell_at (tmp_cells (mem st')) k = cell_at (tmp_cells ?m) k"
      if "\<forall>ii. i0 \<le> ii \<and> ii < nx p \<longrightarrow> k \<noteq> ?R ii" for k
    proof -
      have "k \<noteq> ?R i0" using that True by auto
      moreover have "\<forall>ii. i0 + 1 \<le> ii \<and> ii < nx p \<longrightarrow> k \<noteq> ?R ii"
        using that by simp
      then have "cell_at (tmp_cells (mem st')) k = cell_at (tmp_cells (mem st1)) k" by (rule frame)
      ultimately show ?thesis using t1_at st1 by simp
    qed
    have cnt: "tot_cells st' = tot_cells st + int (length (open_cols p (obstacles ?m) jj i0))"
      using st'(5) by (simp add: st1 open_cols_step [OF True]) (simp add: st1_def)
    have su: "tot_u st' = tot_u st + sum_list (map (\<lambda>ii. cell_speed (streamed p (cells ?m) jj ii))
                                          (open_cols p (obstacles ?m) jj i0))"
      using st'(6) by (simp add: st1 open_cols_step [OF True]) (simp add: st1_def)
    show ?thesis using loop st'(2,3,4) st1 row fr cnt su by auto
  qed
qed

lemma timestep_jj_result:
  assumes "wf_grid p (cells (mem st))" "wf_grid p (tmp_cells (mem st))"
    "int (length (obstacles (mem st))) = nx p * ny p" "0 \<le> j0"
    "\<forall>jj ii. j0 \<le> jj \<and> jj < ny p \<and> 0 \<le> ii \<and> ii < nx p \<and> is_open p (obstacles (mem st)) jj ii \<longrightarrow>
        local_density (streamed p (cells (mem st)) jj ii) \<noteq> 0"
  shows "\<exists>st'. timestep_jj p j0 st = Some st' \<and> cells (mem st') = cells (mem st) \<and>
      obstacles (mem st') = obstacles (mem st) \<and> wf_grid p (tmp_cells (mem st')) \<and>
      (\<forall>jj ii. j0 \<le> jj \<and> jj < ny p \<and> 0 \<le> ii \<and> ii < nx p \<longrightarrow>
         cell_at (tmp_cells (mem st')) (row_index p jj ii) = cell_new p (mem st) jj ii) \<and>
      (\<forall>k. (\<forall>jj ii. j0 \<le> jj \<and> jj < ny p \<and> 0 \<le> ii \<and> ii < nx p \<longrightarrow> k \<noteq> row_index p jj ii) \<longrightarrow>
         cell_at (tmp_cells (mem st')) k = cell_at (tmp_cells (mem st)) k) \<and>
      tot_cells st' = tot_cells st + int (length (open_cells_from p (obstacles (mem st)) j0)) \<and>
      tot_u st' = tot_u st + sum_list (map (\<lambda>(jj, ii). cell_speed (streamed p (cells (mem st)) jj ii))
                                          (open_cells_from p (obstacles (mem st)) j0))"
  using assms
proof (induction p j0 st rule: timestep_jj.induct)
  case (1 p j0 st)
  let ?m = "mem st"
  show ?case
  proof (cases "j0 < ny p")
    case False
    then show ?thesis using "1.prems" by (subst timestep_jj.simps) (auto simp: open_cells_from_done)
  next
    case True
    have nz0: "\<forall>ii. 0 \<le> ii \<and> ii < nx p \<and> is_open p (obstacles ?m) j0 ii \<longrightarrow>
        local_density (streamed p (cells ?m) j0 ii) \<noteq> 0"
      using "1.prems"(5) True by auto
    from timestep_ii_result [OF "1.prems"(1,2,3,4) True order_refl nz0]
    obtain st1 where st1: "timestep_ii p j0 0 st = Some st1" "cells (mem st1) = cells ?m"
      "obstacles (mem st1) = obstacles ?m" "wf_grid p (tmp_cells (mem st1))"
      "tot_cells st1 = tot_cells st + int (length (open_cols p (obstacles ?m) j0 0))"
      "tot_u st1 = tot_u st + sum_list (map (\<lambda>ii. cell_speed (streamed p (cells ?m) j0 ii))
                                          (open_cols p (obstacles ?m) j0 0))"
      and row1: "\<And>ii. 0 \<le> ii \<Longrightarrow> ii < nx p \<Longrightarrow>
         cell_at (tmp_cells (mem st1)) (row_index p j0 ii) = cell_new p ?m j0 ii"
      and frame1: "\<And>k. (\<forall>ii. 0 \<le> ii \<and> ii < nx p \<longrightarrow> k \<noteq> row_index p j0 ii) \<Longrightarrow>
         cell_at (tmp_cells (mem st1)) k = cell_at (tmp_cells ?m) k"
      by auto
    have wf1: "wf_grid p (cells (mem st1))" "int (length (obstacles (mem st1))) = nx p * ny p"
      using "1.prems" st1 by simp_all
    have j1: "0 \<le> j0 + 1" using "1.prems"(4) by simp
    have nz1: "\<forall>jj ii. j0 + 1 \<le> jj \<and> jj < ny p \<and> 0 \<le> ii \<and> ii < nx p \<and>
        is_open p (obstacles (mem st1)) jj ii \<longrightarrow> local_density (streamed p (cells (mem st1)) jj ii) \<noteq> 0"
      using "1.prems"(5) by (simp add: st1)
    from "1.IH" [OF True st1(1) wf1(1) st1(4) wf1(2) j1 nz1]
    obtain st' where st': "timestep_jj p (j0 + 1) st1 = Some st'"
      "cells (mem st') = cells (mem st1)" "obstacles (mem st') = obstacles (mem st1)"
      "wf_grid p (tmp_cells (mem st'))"
      "tot_cells st' = tot_cells st1 + int (length (open_cells_from p (obstacles (mem st1)) (j0 + 1)))"
      "tot_u st' = tot_u st1 + sum_list (map (\<lambda>(jj, ii). cell_speed (streamed p (cells (mem st1)) jj ii))
                                          (open_cells_from p (obstacles (mem st1)) (j0 + 1)))"
      and rows: "\<And>jj ii. j0 + 1 \<le> jj \<Longrightarrow> jj < ny p \<Longrightarrow> 0 \<le> ii \<Longrightarrow> ii < nx p \<Longrightarrow>
         cell_at (tmp_cells (mem st')) (row_index p jj ii) = cell_new p (mem st1) jj ii"
      and frame: "\<And>k. (\<forall>jj ii. j0 + 1 \<le> jj \<and> jj < ny p \<and> 0 \<le> ii \<and> ii < nx p \<longrightarrow>
            k \<noteq> row_index p jj ii) \<Longrightarrow>
         cell_at (tmp_cells (mem st')) k = cell_at (tmp_cells (mem st1)) k"
      by auto
    have loop: "timestep_jj p j0 st = Some st'"
      using True st1(1) st'(1) by (subst timestep_jj.simps) simp
    have ne: "row_index p jj ii \<noteq> row_index p j0 ii'"
      if "j0 + 1 \<le> jj" "0 \<le> ii" "ii < nx p" "0 \<le> ii'" "ii' < nx p" for jj ii ii'
      using row_index_inj [of ii p ii' jj j0] that "1.prems"(4) by auto
    have cells_at: "cell_at (tmp_cells (mem st')) (row_index p jj ii) = cell_new p ?m jj ii"
      if c: "j0 \<le> jj" "jj < ny p" "0 \<le> ii" "ii < nx p" for jj ii
    proof (cases "jj = j0")
      case True
      have "\<forall>jj' ii'. j0 + 1 \<le> jj' \<and> jj' < ny p \<and> 0 \<le> ii' \<and> ii' < nx p \<longrightarrow>
          row_index p j0 ii \<noteq> row_index p jj' ii'"
        using ne c by fastforce
      then have "cell_at (tmp_cells (mem st')) (row_index p j0 ii) =
          cell_at (tmp_cells (mem st1)) (row_index p j0 ii)"
        by (rule frame)
      then show ?thesis using True row1 [OF c(3,4)] by simp
    next
      case False
      then have jj': "j0 + 1 \<le> jj" using c by simp
      have "\<forall>ii'. 0 \<le> ii' \<and> ii' < nx p \<longrightarrow> row_index p jj ii \<noteq> row_index p j0 ii'"
        using ne [OF jj' c(3,4)] by simp
      then have same: "cell_at (tmp_cells (mem st1)) (row_index p jj ii) =
          cell_at (tmp_cells ?m) (row_index p jj ii)"
        by (rule frame1)
      show ?thesis
        using rows [OF jj' c(2,3,4)] cell_new_cong [OF st1(2,3) same] by simp
    qed
    have fr: "cell_at (tmp_cells (mem st')) k = cell_at (tmp_cells ?m) k"
      if k: "\<forall>jj ii. j0 \<le> jj \<and> jj < ny p \<and> 0 \<le> ii \<and> ii < nx p \<longrightarrow> k \<noteq> row_index p jj ii" for k
    proof -
      have "\<forall>ii. 0 \<le> ii \<and> ii < nx p \<longrightarrow> k \<noteq> row_index p j0 ii"
        using k True by auto
      then have a: "cell_at (tmp_cells (mem st1)) k = cell_at (tmp_cells ?m) k" by (rule frame1)
      have "\<forall>jj ii. j0 + 1 \<le> jj \<and> jj < ny p \<and> 0 \<le> ii \<and> ii < nx p \<longrightarrow> k \<noteq> row_index p jj ii"
        using k by simp
      then have "cell_at (tmp_cells (mem st')) k = cell_at (tmp_cells (mem st1)) k" by (rule frame)
      with a show ?thesis by simp
    qed
    have cnt: "tot_cells st' = tot_cells st + int (length (open_cells_from p (obstacles ?m) j0))"
      using st'(5) st1(5) by (simp add: st1(3) open_cells_from_step [OF True])
    have su: "tot_u st' = tot_u st + sum_list (map (\<lambda>(jj, ii). cell_speed (streamed p (cells ?m) jj ii))
                                          (open_cells_from p (obstacles ?m) j0))"
      using st'(6) st1(6) by (simp add: st1(2,3) open_cells_from_step [OF True] comp_def)
    show ?thesis using loop st'(2,3,4) st1(2,3) cells_at fr cnt su by auto
  qed
qed

lemma timestep_ii_nz:
  assumes "wf_grid p (cells (mem st))" "wf_grid p (tmp_cells (mem st))"
    "int (length (obstacles (mem st))) = nx p * ny p" "0 \<le> jj" "jj < ny p" "0 \<le> i0"
    "timestep_ii p jj i0 st = Some st'"
  shows "\<forall>ii. i0 \<le> ii \<and> ii < nx p \<and> is_open p (obstacles (mem st)) jj ii \<longrightarrow>
        local_density (streamed p (cells (mem st)) jj ii) \<noteq> 0"
  using assms
proof (induction p jj i0 st rule: timestep_ii.induct)
  case (1 p jj i0 st)
  show ?case
  proof (cases "i0 < nx p")
    case False
    then show ?thesis by simp
  next
    case True
    from "1.prems"(7) True obtain st1 where
      step: "timestep_cell p jj i0 st = Some st1" and rest: "timestep_ii p jj (i0 + 1) st1 = Some st'"
      by (subst (asm) timestep_ii.simps) (auto simp: bind_eq_Some_conv)
    note c = timestep_cell_Some [OF "1.prems"(1,2,3,6) True "1.prems"(4,5) step]
    have wf1: "wf_grid p (cells (mem st1))" "wf_grid p (tmp_cells (mem st1))"
      "int (length (obstacles (mem st1))) = nx p * ny p"
      using c "1.prems" by simp_all
    have i1: "0 \<le> i0 + 1" using "1.prems"(6) by simp
    from "1.IH" [OF True step wf1 "1.prems"(4,5) i1 rest]
    have ih: "\<forall>ii. i0 + 1 \<le> ii \<and> ii < nx p \<and> is_open p (obstacles (mem st)) jj ii \<longrightarrow>
        local_density (streamed p (cells (mem st)) jj ii) \<noteq> 0"
      using c by simp
    show ?thesis
    proof (intro allI impI)
      fix ii assume a: "i0 \<le> ii \<and> ii < nx p \<and> is_open p (obstacles (mem st)) jj ii"
      show "local_density (streamed p (cells (mem st)) jj ii) \<noteq> 0"
      proof (cases "ii = i0")
        case True
        then show ?thesis using c a by simp
      next
        case False
        then have "i0 + 1 \<le> ii" using a by simp
        then show ?thesis using ih a by simp
      qed
    qed
  qed
qed

lemma timestep_jj_nz:
  assumes "wf_grid p (cells (mem st))" "wf_grid p (tmp_cells (mem st))"
    "int (length (obstacles (mem st))) = nx p * ny p" "0 \<le> j0"
    "timestep_jj p j0 st = Some st'"
  shows "\<forall>jj ii. j0 \<le> jj \<and> jj < ny p \<and> 0 \<le> ii \<and> ii < nx p \<and> is_open p (obstacles (mem st)) jj ii \<longrightarrow>
        local_density (streamed p (cells (mem st)) jj ii) \<noteq> 0"
  using assms
proof (induction p j0 st rule: timestep_jj.induct)
  case (1 p j0 st)
  show ?case
  proof (cases "j0 < ny p")
    case False
    then show ?thesis by simp
  next
    case True
    from "1.prems"(5) True obtain st1 where
      row: "timestep_ii p j0 0 st = Some st1" and rest: "timestep_jj p (j0 + 1) st1 = Some st'"
      by (subst (asm) timestep_jj.simps) (auto simp: bind_eq_Some_conv)
    note nz0 = timestep_ii_nz [OF "1.prems"(1,2,3,4) True order_refl row]
    from timestep_ii_result [OF "1.prems"(1,2,3,4) True order_refl nz0] row
    have c: "cells (mem st1) = cells (mem st)" "obstacles (mem st1) = obstacles (mem st)"
      "wf_grid p (tmp_cells (mem st1))"
      by auto
    have wf1: "wf_grid p (cells (mem st1))" "int (length (obstacles (mem st1))) = nx p * ny p"
      using c "1.prems" by simp_all
    have j1: "0 \<le> j0 + 1" using "1.prems"(4) by simp
    from "1.IH" [OF True row wf1(1) c(3) wf1(2) j1 rest]
    have ih: "\<forall>jj ii. j0 + 1 \<le> jj \<and> jj < ny p \<and> 0 \<le> ii \<and> ii < nx p \<and>
        is_open p (obstacles (mem st)) jj ii \<longrightarrow> local_density (streamed p (cells (mem st)) jj ii) \<noteq> 0"
      using c by simp
    show ?thesis
    proof (intro allI impI)
      fix jj ii
      assume a: "j0 \<le> jj \<and> jj < ny p \<and> 0 \<le> ii \<and> ii < nx p \<and> is_open p (obstacles (mem st)) jj ii"
      show "local_density (streamed p (cells (mem st)) jj ii) \<noteq> 0"
      proof (cases "jj = j0")
        case True
        then show ?thesis using nz0 a by simp
      next
        case False
        then have "j0 + 1 \<le> jj" using a by simp
        then show ?thesis using ih a by simp
      qed
    qed
  qed
qed

lemma stream_collide_result:
  assumes "wf_state p m" "stream_collide p m = Some st"
  shows "cells (mem st) = cells m \<and> obstacles (mem st) = obstacles m \<and>
      wf_grid p (tmp_cells (mem st)) \<and>
      (\<forall>jj ii. 0 \<le> jj \<and> jj < ny p \<and> 0 \<le> ii \<and> ii < nx p \<longrightarrow>
         cell_at (tmp_cells (mem st)) (row_index p jj ii) = cell_new p m jj ii) \<and>
      (\<forall>jj ii. 0 \<le> jj \<and> jj < ny p \<and> 0 \<le> ii \<and> ii < nx p \<and> is_open p (obstacles m) jj ii \<longrightarrow>
         local_density (streamed p (cells m) jj ii) \<noteq> 0) \<and>
      tot_cells st = int (length (open_cells_from p (obstacles m) 0)) \<and>
      tot_u st = sum_list (map (\<lambda>(jj, ii). cell_speed (streamed p (cells m) jj ii))
                                          (open_cells_from p (obstacles m) 0))"
proof -
  let ?st0 = "\<lparr>mem = m, tot_cells = 0, tot_u = 0\<rparr>"
  have wf: "wf_grid p (cells (mem ?st0))" "wf_grid p (tmp_cells (mem ?st0))"
    "int (length (obstacles (mem ?st0))) = nx p * ny p"
    using assms(1) by (simp_all add: wf_state_def)
  have run: "timestep_jj p 0 ?st0 = Some st" using assms(2) by (simp add: stream_collide_def)
  note nz = timestep_jj_nz [OF wf order_refl run]
  from timestep_jj_result [OF wf order_refl nz] run nz show ?thesis by auto
qed

lemma stream_collide_Some:
  assumes "wf_state p m"
    "\<forall>jj ii. 0 \<le> jj \<and> jj < ny p \<and> 0 \<le> ii \<and> ii < nx p \<and> is_open p (obstacles m) jj ii \<longrightarrow>
         local_density (streamed p (cells m) jj ii) \<noteq> 0"
  shows "\<exists>st. stream_collide p m = Some st"
proof -
  let ?st0 = "\<lparr>mem = m, tot_cells = 0, tot_u = 0\<rparr>"
  have wf: "wf_grid p (cells (mem ?st0))" "wf_grid p (tmp_cells (mem ?st0))"
    "int (length (obstacles (mem ?st0))) = nx p * ny p"
    using assms(1) by (simp_all add: wf_state_def)
  have nz: "\<forall>jj ii. 0 \<le> jj \<and> jj < ny p \<and> 0 \<le> ii \<and> ii < nx p \<and>
      is_open p (obstacles (mem ?st0)) jj ii \<longrightarrow> local_density (streamed p (cells (mem ?st0)) jj ii) \<noteq> 0"
    using assms(2) by simp
  from timestep_jj_result [OF wf order_refl nz] show ?thesis
    by (auto simp: stream_collide_def)
qed

text \<open>What a pass leaves at an obstacle cell: the eight moving directions reflected, and
  in direction 0 the value the scratch grid held before the pass.\<close>

lemma stream_collide_obstacle_cell:
  assumes "wf_state p m" "stream_collide p m = Some st"
    "0 \<le> jj" "jj < ny p" "0 \<le> ii" "ii < nx p" "\<not> is_open p (obstacles m) jj ii"
    "pr = streamed p (cells m) jj ii"
  shows "cell_at (tmp_cells (mem st)) (row_index p jj ii) =
      [s0 (tmp_cells m) ! row_index p jj ii, pr ! 3, pr ! 4, pr ! 1, pr ! 2, pr ! 7, pr ! 8, pr ! 5, pr ! 6]"
proof -
  have "cell_at (tmp_cells (mem st)) (row_index p jj ii) = cell_new p m jj ii"
    using stream_collide_result [OF assms(1,2)] assms(3-6) by blast
  then show ?thesis using assms(7,8) by (simp add: cell_new_def Let_def)
qed

subsection \<open>The loops of the velocity reducer\<close>

lemma av_velocity_cell_wf:
  assumes "wf_grid p (cells (mem st))" "int (length (obstacles (mem st))) = nx p * ny p"
    "0 \<le> ii" "ii < nx p" "0 \<le> jj" "jj < ny p"
  shows "av_velocity_cell p jj ii st =
    (if is_open p (obstacles (mem st)) jj ii
     then if local_density (cell_at (cells (mem st)) (row_index p jj ii)) = 0 then None
          else Some (st\<lparr>tot_u := tot_u st + cell_speed (cell_at (cells (mem st)) (row_index p jj ii)),
                       tot_cells := tot_cells st + 1\<rparr>)
     else Some st)"
proof -
  have kb: "0 \<le> ii + jj * nx p" "ii + jj * nx p < nx p * ny p"
    using idx_bounds [of ii "nx p" jj "ny p"] assms by simp_all
  show ?thesis
    using wf_grid_len [OF assms(1)] assms(2) kb
    by (simp add: av_velocity_cell_def Let_def is_open_def row_index_def cell_speed_def
        u_x_def u_y_def u_sq_def fdiv_def local_density_def cell_at_def)
qed

lemma av_velocity_ii_result:
  assumes "wf_grid p (cells (mem st))" "int (length (obstacles (mem st))) = nx p * ny p"
    "0 \<le> jj" "jj < ny p" "0 \<le> i0"
    "\<forall>ii. i0 \<le> ii \<and> ii < nx p \<and> is_open p (obstacles (mem st)) jj ii \<longrightarrow>
        local_density (cell_at (cells (mem st)) (row_index p jj ii)) \<noteq> 0"
  shows "\<exists>st'. av_velocity_ii p jj i0 st = Some st' \<and> mem st' = mem st \<and>
      tot_cells st' = tot_cells st + int (length (open_cols p (obstacles (mem st)) jj i0)) \<and>
      tot_u st' = tot_u st + sum_list (map (\<lambda>ii. cell_speed (cell_at (cells (mem st)) (row_index p jj ii)))
                                          (open_cols p (obstacles (mem st)) jj i0))"
  using assms
proof (induction p jj i0 st rule: av_velocity_ii.induct)
  case (1 p jj i0 st)
  show ?case
  proof (cases "i0 < nx p")
    case False
    then show ?thesis by (subst av_velocity_ii.simps) (simp add: open_cols_done)
  next
    case True
    define st1 where "st1 = (if is_open p (obstacles (mem st)) jj i0
       then st\<lparr>tot_u := tot_u st + cell_speed (cell_at (cells (mem st)) (row_index p jj i0)),
               tot_cells := tot_cells st + 1\<rparr>
       else st)"
    have nz0: "is_open p (obstacles (mem st)) jj i0 \<Longrightarrow>
        local_density (cell_at (cells (mem st)) (row_index p jj i0)) \<noteq> 0"
      using "1.prems"(5,6) True by auto
    have step: "av_velocity_cell p jj i0 st = Some st1"
      using av_velocity_cell_wf [OF "1.prems"(1,2,5) True "1.prems"(3,4)] nz0
      by (auto simp: st1_def)
    have m1: "mem st1 = mem st" by (simp add: st1_def)
    have i1: "0 \<le> i0 + 1" using "1.prems"(5) by simp
    from "1.IH" [OF True step, unfolded m1, OF "1.prems"(1,2,3,4) i1] "1.prems"(6)
    obtain st' where st': "av_velocity_ii p jj (i0 + 1) st1 = Some st'" "mem st' = mem st"
      "tot_cells st' = tot_cells st1 + int (length (open_cols p (obstacles (mem st)) jj (i0 + 1)))"
      "tot_u st' = tot_u st1 + sum_list (map (\<lambda>ii. cell_speed (cell_at (cells (mem st)) (row_index p jj ii)))
                                          (open_cols p (obstacles (mem st)) jj (i0 + 1)))"
      by auto
    have loop: "av_velocity_ii p jj i0 st = Some st'"
      using True step st'(1) by (subst av_velocity_ii.simps) simp
    show ?thesis
      using loop st'(2,3,4) by (simp add: open_cols_step [OF True]) (simp add: st1_def)
  qed
qed

lemma av_velocity_jj_result:
  assumes "wf_grid p (cells (mem st))" "int (length (obstacles (mem st))) = nx p * ny p" "0 \<le> j0"
    "\<forall>jj ii. j0 \<le> jj \<and> jj < ny p \<and> 0 \<le> ii \<and> ii < nx p \<and> is_open p (obstacles (mem st)) jj ii \<longrightarrow>
        local_density (cell_at (cells (mem st)) (row_index p jj ii)) \<noteq> 0"
  shows "\<exists>st'. av_velocity_jj p j0 st = Some st' \<and> mem st' = mem st \<and>
      tot_cells st' = tot_cells st + int (length (open_cells_from p (obstacles (mem st)) j0)) \<and>
      tot_u st' = tot_u st +
         sum_list (map (\<lambda>(jj, ii). cell_speed (cell_at (cells (mem st)) (row_index p jj ii)))
                       (open_cells_from p (obstacles (mem st)) j0))"
  using assms
proof (induction p j0 st rule: av_velocity_jj.induct)
  case (1 p j0 st)
  show ?case
  proof (cases "j0 < ny p")
    case False
    then show ?thesis by (subst av_velocity_jj.simps) (simp add: open_cells_from_done)
  next
    case True
    have nz0: "\<forall>ii. 0 \<le> ii \<and> ii < nx p \<and> is_open p (obstacles (mem st)) j0 ii \<longrightarrow>
        local_density (cell_at (cells (mem st)) (row_index p j0 ii)) \<noteq> 0"
      using "1.prems"(3,4) True by auto
    from av_velocity_ii_result [OF "1.prems"(1,2,3) True order_refl nz0]
    obtain st1 where st1: "av_velocity_ii p j0 0 st = Some st1" "mem st1 = mem st"
      "tot_cells st1 = tot_cells st + int (length (open_cols p (obstacles (mem st)) j0 0))"
      "tot_u st1 = tot_u st + sum_list (map (\<lambda>ii. cell_speed (cell_at (cells (mem st)) (row_index p j0 ii)))
                                          (open_cols p (obstacles (mem st)) j0 0))"
      by auto
    have j1: "0 \<le> j0 + 1" using "1.prems"(3) by simp
    from "1.IH" [OF True st1(1), unfolded st1(2), OF "1.prems"(1,2) j1] "1.prems"(4)
    obtain st' where st': "av_velocity_jj p (j0 + 1) st1 = Some st'" "mem st' = mem st"
      "tot_cells st' = tot_cells st1 + int (length (open_cells_from p (obstacles (mem st)) (j0 + 1)))"
      "tot_u st' = tot_u st1 +
         sum_list (map (\<lambda>(jj, ii). cell_speed (cell_at (cells (mem st)) (row_index p jj ii)))
                       (open_cells_from p (obstacles (mem st)) (j0 + 1)))"
      by auto
    have loop: "av_velocity_jj p j0 st = Some st'"
      using True st1(1) st'(1) by (subst av_velocity_jj.simps) simp
    show ?thesis
      using loop st'(2,3,4) st1(3,4) by (simp add: open_cells_from_step [OF True] comp_def)
  qed
qed

lemma av_velocity_loops_result:
  assumes "wf_state p m"
    "\<forall>jj ii. 0 \<le> jj \<and> jj < ny p \<and> 0 \<le> ii \<and> ii < nx p \<and> is_open p (obstacles m) jj ii \<longrightarrow>
        local_density (cell_at (cells m) (row_index p jj ii)) \<noteq> 0"
  shows "\<exists>st. av_velocity_loops p m = Some st \<and> mem st = m \<and>
      tot_cells st = int (length (open_cells_from p (obstacles m) 0)) \<and>
      tot_u st = sum_list (map (\<lambda>(jj, ii). cell_speed (cell_at (cells m) (row_index p jj ii)))
                       (open_cells_from p (obstacles m) 0))"
proof -
  let ?st0 = "\<lparr>mem = m, tot_cells = 0, tot_u = 0\<rparr>"
  have wf: "wf_grid p (cells (mem ?st0))" "int (length (obstacles (mem ?st0))) = nx p * ny p"
    using assms(1) by (simp_all add: wf_state_def)
  have nz: "\<forall>jj ii. 0 \<le> jj \<and> jj < ny p \<and> 0 \<le> ii \<and> ii < nx p \<and>
      is_open p (obstacles (mem ?st0)) jj ii \<longrightarrow>
        local_density (cell_at (cells (mem ?st0)) (row_index p jj ii)) \<noteq> 0"
    using assms(2) by simp
  from av_velocity_jj_result [OF wf order_refl nz] show ?thesis
    by (auto simp: av_velocity_loops_def)
qed

subsection \<open>Mass balance\<close>

text \<open>Mass balance of one pass. \<open>total_density\<close> computes the sum over the grid; streaming
  permutes each direction's values over the torus; the relaxed values of an open cell sum
  to its streamed density; an obstacle cell keeps the streamed sum of its eight moving
  directions and, in direction 0, the value the scratch grid held.\<close>

lemma total_density_cell_wf:
  assumes "wf_grid p c" "0 \<le> ii" "ii < nx p" "0 \<le> jj" "jj < ny p"
  shows "total_density_cell p c jj ii tot = Some (tot + cell_sum c (row_index p jj ii))"
proof -
  have kb: "0 \<le> ii + jj * nx p" "ii + jj * nx p < nx p * ny p"
    using idx_bounds [of ii "nx p" jj "ny p"] assms by simp_all
  show ?thesis
    using wf_grid_len [OF assms(1)] kb
    by (simp add: total_density_cell_def Let_def cell_sum_def cell_at_def row_index_def)
qed

lemma total_density_ii_result:
  assumes "wf_grid p c" "0 \<le> jj" "jj < ny p" "0 \<le> i0"
  shows "total_density_ii p c jj i0 tot =
     Some (tot + (\<Sum>ii = i0..nx p - 1. cell_sum c (row_index p jj ii)))"
  using assms
proof (induction p c jj i0 tot rule: total_density_ii.induct)
  case (1 p c jj i0 tot)
  show ?case
  proof (cases "i0 < nx p")
    case False
    then show ?thesis by (subst total_density_ii.simps) simp
  next
    case True
    have step: "total_density_cell p c jj i0 tot = Some (tot + cell_sum c (row_index p jj i0))"
      using total_density_cell_wf [OF "1.prems"(1,4) True "1.prems"(2,3)] .
    have i1: "0 \<le> i0 + 1" using "1.prems"(4) by simp
    have split: "{i0..nx p - 1} = insert i0 {i0 + 1..nx p - 1}" using True by auto
    have "(\<Sum>ii = i0..nx p - 1. cell_sum c (row_index p jj ii)) =
        cell_sum c (row_index p jj i0) + (\<Sum>ii = i0 + 1..nx p - 1. cell_sum c (row_index p jj ii))"
      unfolding split by simp
    then show ?thesis
      using "1.IH" [OF True step "1.prems"(1,2,3) i1] True step
      by (subst total_density_ii.simps) simp
  qed
qed

lemma total_density_jj_result:
  assumes "wf_grid p c" "0 \<le> j0"
  shows "total_density_jj p c j0 tot =
     Some (tot + (\<Sum>jj = j0..ny p - 1. \<Sum>ii = 0..nx p - 1. cell_sum c (row_index p jj ii)))"
  using assms
proof (induction p c j0 tot rule: total_density_jj.induct)
  case (1 p c j0 tot)
  show ?case
  proof (cases "j0 < ny p")
    case False
    then show ?thesis by (subst total_density_jj.simps) simp
  next
    case True
    have row: "total_density_ii p c j0 0 tot =
        Some (tot + (\<Sum>ii = 0..nx p - 1. cell_sum c (row_index p j0 ii)))"
      using total_density_ii_result [OF "1.prems"(1,2) True order_refl] .
    have j1: "0 \<le> j0 + 1" using "1.prems"(2) by simp
    have split: "{j0..ny p - 1} = insert j0 {j0 + 1..ny p - 1}" using True by auto
    have "(\<Sum>jj = j0..ny p - 1. \<Sum>ii = 0..nx p - 1. cell_sum c (row_index p jj ii)) =
        (\<Sum>ii = 0..nx p - 1. cell_sum c (row_index p j0 ii)) +
        (\<Sum>jj = j0 + 1..ny p - 1. \<Sum>ii = 0..nx p - 1. cell_sum c (row_index p jj ii))"
      unfolding split by simp
    then show ?thesis
      using "1.IH" [OF True row "1.prems"(1) j1] True row
      by (subst total_density_jj.simps) simp
  qed
qed

lemma total_density_grid_sum:
  "wf_grid p c \<Longrightarrow> total_density p c = Some (grid_sum p c)"
  using total_density_jj_result [of p c 0 0] by (simp add: total_density_def grid_sum_def)

lemma shift_sum:
  fixes g :: "int \<Rightarrow> real"
  assumes "0 < n"
  shows "(\<Sum>i = 0..n - 1. g ((i - e) mod n)) = (\<Sum>i = 0..n - 1. g i)"
proof (rule sum.reindex_bij_witness [where i = "\<lambda>b. (b + e) mod n" and j = "\<lambda>a. (a - e) mod n"])
  fix a assume "a \<in> {0..n - 1}"
  then have a: "0 \<le> a" "a < n" by simp_all
  show "((a - e) mod n + e) mod n = a" using a by (simp add: mod_add_left_eq)
  show "(a - e) mod n \<in> {0..n - 1}" using assms by simp
  show "g ((a - e) mod n) = g ((a - e) mod n)" ..
next
  fix b assume "b \<in> {0..n - 1}"
  then have b: "0 \<le> b" "b < n" by simp_all
  show "((b + e) mod n - e) mod n = b" using b by (simp add: mod_diff_left_eq)
  show "(b + e) mod n \<in> {0..n - 1}" using assms by simp
qed

lemma shift_sum2:
  fixes g :: "nat \<Rightarrow> real"
  assumes "0 < n" "0 < m"
  shows "(\<Sum>j = 0..m - 1. \<Sum>i = 0..n - 1. g (nat ((i - a) mod n + ((j - b) mod m) * n))) =
         (\<Sum>j = 0..m - 1. \<Sum>i = 0..n - 1. g (nat (i + j * n)))"
proof -
  have "(\<Sum>j = 0..m - 1. \<Sum>i = 0..n - 1. g (nat ((i - a) mod n + ((j - b) mod m) * n))) =
        (\<Sum>j = 0..m - 1. \<Sum>i = 0..n - 1. g (nat (i + ((j - b) mod m) * n)))"
    using shift_sum [OF assms(1), of "\<lambda>i. g (nat (i + ((j - b) mod m) * n))" a for j] by simp
  also have "\<dots> = (\<Sum>j = 0..m - 1. \<Sum>i = 0..n - 1. g (nat (i + j * n)))"
    using shift_sum [OF assms(2), of "\<lambda>j. \<Sum>i = 0..n - 1. g (nat (i + j * n))" b] by simp
  finally show ?thesis .
qed

lemma sum_d_equ: "sum_list (d_equ ld ux uy) = ld"
  by (simp add: d_equ_def u_dir_def u_sq_def c_sp_def w0_def w1_def w2_def Let_def field_simps)

lemma sum_relax:
  "sum_list (relax p pr de) = local_density pr + omega p *
     (de ! 0 + de ! 1 + de ! 2 + de ! 3 + de ! 4 + de ! 5 + de ! 6 + de ! 7 + de ! 8 - local_density pr)"
  by (simp add: relax_def local_density_def algebra_simps)

lemma sum_relax_d_equ: "sum_list (relax p pr (d_equ (local_density pr) ux uy)) = local_density pr"
  using sum_list9 [OF length_d_equ, of "local_density pr" ux uy] sum_d_equ [of "local_density pr" ux uy]
  by (simp add: sum_relax)

lemma sum_cell_new:
  assumes "0 \<le> ii" "ii < nx p" "0 \<le> jj" "jj < ny p"
  shows "sum_list (cell_new p m jj ii) = local_density (streamed p (cells m) jj ii) +
     (if is_open p (obstacles m) jj ii then 0
      else s0 (tmp_cells m) ! row_index p jj ii - s0 (cells m) ! row_index p jj ii)"
proof (cases "is_open p (obstacles m) jj ii")
  case True
  then show ?thesis by (simp add: cell_new_def Let_def sum_relax_d_equ)
next
  case False
  have "streamed p (cells m) jj ii ! 0 = s0 (cells m) ! row_index p jj ii"
    using assms by (simp add: streamed_def speed_def e_x_def e_y_def row_index_def)
  then show ?thesis
    using False by (simp add: cell_new_def Let_def local_density_def)
qed

lemma sum_streamed:
  assumes "0 < nx p" "0 < ny p"
  shows "(\<Sum>jj = 0..ny p - 1. \<Sum>ii = 0..nx p - 1. local_density (streamed p c jj ii)) = grid_sum p c"
proof -
  define h where "h d jj ii =
     speed c d ! nat ((ii - e_x d) mod nx p + ((jj - e_y d) mod ny p) * nx p)" for d jj ii
  define S where "S g = (\<Sum>jj = 0..ny p - 1. \<Sum>ii = 0..nx p - 1. (g jj ii :: real))" for g
  have sh: "S (h d) = S (\<lambda>jj ii. speed c d ! nat (ii + jj * nx p))" for d
    unfolding S_def h_def using shift_sum2 [OF assms, of "\<lambda>k. speed c d ! k" "e_x d" "e_y d"] .
  have add: "S (\<lambda>jj ii. f jj ii + g jj ii) = S f + S g" for f g
    by (simp add: S_def sum.distrib)
  have "local_density (streamed p c jj ii) =
      h 0 jj ii + h 1 jj ii + h 2 jj ii + h 3 jj ii + h 4 jj ii + h 5 jj ii + h 6 jj ii + h 7 jj ii + h 8 jj ii"
    for jj ii
    by (simp add: local_density_def streamed_def h_def)
  then have "S (\<lambda>jj ii. local_density (streamed p c jj ii)) =
      S (h 0) + S (h 1) + S (h 2) + S (h 3) + S (h 4) + S (h 5) + S (h 6) + S (h 7) + S (h 8)"
    by (simp add: add)
  also have "\<dots> = S (\<lambda>jj ii. cell_sum c (row_index p jj ii))"
    by (simp add: sh add [symmetric]) (simp add: cell_sum_def cell_at_def row_index_def speed_def add.assoc)
  finally show ?thesis by (simp add: S_def grid_sum_def)
qed

lemma stream_collide_mass:
  assumes "wf_state p m" "stream_collide p m = Some st"
  shows "total_density p (cells m) = Some (grid_sum p (cells m)) \<and>
     total_density p (tmp_cells (mem st)) = Some (grid_sum p (cells m) + stale_rest p m)"
proof -
  have wf: "wf_grid p (cells m)" "0 < nx p" "0 < ny p" using assms(1) by (simp_all add: wf_state_def)
  note r = stream_collide_result [OF assms]
  have wf': "wf_grid p (tmp_cells (mem st))" using r by simp
  have at: "cell_sum (tmp_cells (mem st)) (row_index p jj ii) = sum_list (cell_new p m jj ii)"
    if "jj \<in> {0..ny p - 1}" "ii \<in> {0..nx p - 1}" for jj ii
    using r that by (simp add: cell_sum_def)
  have "grid_sum p (tmp_cells (mem st)) =
      (\<Sum>jj = 0..ny p - 1. \<Sum>ii = 0..nx p - 1. sum_list (cell_new p m jj ii))"
    unfolding grid_sum_def by (intro sum.cong refl at)
  also have "\<dots> = (\<Sum>jj = 0..ny p - 1. \<Sum>ii = 0..nx p - 1.
      local_density (streamed p (cells m) jj ii) +
       (if is_open p (obstacles m) jj ii then 0
        else s0 (tmp_cells m) ! row_index p jj ii - s0 (cells m) ! row_index p jj ii))"
    by (intro sum.cong refl sum_cell_new) simp_all
  also have "\<dots> = grid_sum p (cells m) + stale_rest p m"
    by (simp add: sum.distrib sum_streamed [OF wf(2,3)] stale_rest_def)
  finally show ?thesis
    using total_density_grid_sum [OF wf(1)] total_density_grid_sum [OF wf'] by simp
qed

lemma stale_rest_cong:
  "cells m1 = cells m \<Longrightarrow> tmp_cells m1 = tmp_cells m \<Longrightarrow> obstacles m1 = obstacles m \<Longrightarrow>
     stale_rest p m1 = stale_rest p m"
  by (simp add: stale_rest_def cong: if_cong)

text \<open>With \<open>accel = 0\<close>, the total of the next grid after \<open>timestep\<close> is the total of the
  current grid before it plus \<open>stale_rest\<close>: mass is conserved exactly when the rest values
  left in the scratch grid at the obstacle cells add up to those of the current grid, as
  on a grid without obstacles.\<close>

lemma timestep_mass_balance:
  assumes "wf_state p m" "accel p = 0" "timestep p m = Some (m', av)"
  shows "total_density p (cells m) = Some (grid_sum p (cells m)) \<and>
     total_density p (tmp_cells m') = Some (grid_sum p (cells m) + stale_rest p m)"
proof -
  from assms(3) obtain m0 st where
    a: "accelerate_flow p m = Some m0" and s: "stream_collide p m0 = Some st" and m': "m' = mem st"
    by (auto simp: timestep_def bind_eq_Some_conv)
  note ny = accelerate_flow_rows [OF assms(1) a]
  from accelerate_flow_zero [OF assms(1) ny assms(2)] a
  have m0: "cells m0 = cells m" "tmp_cells m0 = tmp_cells m" "obstacles m0 = obstacles m"
    "wf_state p m0" by auto
  show ?thesis
    using stream_collide_mass [OF m0(4) s] stale_rest_cong [OF m0(1,2,3)] m0(1) m' by simp
qed

lemma stale_rest_no_obstacle:
  "(\<And>jj ii. 0 \<le> jj \<Longrightarrow> jj < ny p \<Longrightarrow> 0 \<le> ii \<Longrightarrow> ii < nx p \<Longrightarrow> is_open p (obstacles m) jj ii) \<Longrightarrow>
     stale_rest p m = 0"
  unfolding stale_rest_def by (intro sum.neutral ballI) simp

subsection \<open>Rounding to binary32\<close>

lemma bexp_numeral:
  "bexp (numeral k) e a =
     (if a < 2 powi (e + 2 ^ pred_numeral k) then bexp (pred_numeral k) e a
      else bexp (pred_numeral k) (e + 2 ^ pred_numeral k) a)"
  by (simp add: numeral_eq_Suc)

lemmas fl_eval = fl_def flt_max_def rne_def ulp_exp_def round_even_def Let_def bexp_numeral

lemma bexp_bounds: "e \<le> bexp n e a \<and> bexp n e a \<le> e + 2 ^ n - 1"
proof (induction n arbitrary: e)
  case 0
  then show ?case by simp
next
  case (Suc n)
  show ?case using Suc [of e] Suc [of "e + 2 ^ n"] by auto
qed

lemma bexp_lower: "bexp n e a = e \<or> 2 powi (bexp n e a) \<le> a"
proof (induction n arbitrary: e)
  case 0
  then show ?case by simp
next
  case (Suc n)
  show ?case
  proof (cases "a < 2 powi (e + 2 ^ n)")
    case True
    then show ?thesis using Suc [of e] by simp
  next
    case False
    then have a: "2 powi (e + 2 ^ n) \<le> a" by simp
    from Suc [of "e + 2 ^ n"] a show ?thesis using False by auto
  qed
qed

lemma bexp_upper: "a < 2 powi (bexp n e a + 1) \<or> bexp n e a = e + 2 ^ n - 1"
proof (induction n arbitrary: e)
  case 0
  then show ?case by simp
next
  case (Suc n)
  show ?case
  proof (cases "a < 2 powi (e + 2 ^ n)")
    case True
    from Suc [of e] show ?thesis
    proof
      assume "a < 2 powi (bexp n e a + 1)"
      then show ?thesis using True by simp
    next
      assume "bexp n e a = e + 2 ^ n - 1"
      then have "bexp n e a + 1 = e + 2 ^ n" by simp
      then show ?thesis using True by simp
    qed
  next
    case False
    from Suc [of "e + 2 ^ n"] show ?thesis using False by auto
  qed
qed

lemma bexp_mono: "a \<le> b \<Longrightarrow> bexp n e a \<le> bexp n e b"
proof (induction n arbitrary: e)
  case 0
  then show ?case by simp
next
  case (Suc n)
  show ?case
  proof (cases "b < 2 powi (e + 2 ^ n)")
    case True
    then show ?thesis using Suc.prems Suc.IH [OF Suc.prems, of e] by simp
  next
    case False
    show ?thesis
    proof (cases "a < 2 powi (e + 2 ^ n)")
      case True
      then show ?thesis
        using False bexp_bounds [of "e + 2 ^ n" n b] bexp_bounds [of e n a] by simp
    next
      case a: False
      then show ?thesis using False Suc.IH [OF Suc.prems, of "e + 2 ^ n"] by simp
    qed
  qed
qed

lemma round_even_cases:
  "round_even q = \<lfloor>q\<rfloor> \<or> round_even q = \<lfloor>q\<rfloor> + 1"
  by (simp add: round_even_def Let_def)

lemma round_even_near:
  "q - 1 / 2 \<le> of_int (round_even q)" "of_int (round_even q) \<le> q + 1 / 2"
  by (simp_all add: round_even_def Let_def; linarith)+

lemma round_even_int [simp]: "round_even (of_int n) = n"
  by (simp add: round_even_def)

lemma round_even_0 [simp]: "round_even 0 = 0"
  by (simp add: round_even_def)

lemma round_even_mono: "q \<le> r \<Longrightarrow> round_even q \<le> round_even r"
proof -
  assume qr: "q \<le> r"
  have f: "\<lfloor>q\<rfloor> \<le> \<lfloor>r\<rfloor>" using qr by (rule floor_mono)
  show ?thesis
  proof (cases "\<lfloor>q\<rfloor> = \<lfloor>r\<rfloor>")
    case True
    then have "q - of_int \<lfloor>q\<rfloor> \<le> r - of_int \<lfloor>r\<rfloor>" using qr by simp
    then show ?thesis using True by (auto simp: round_even_def Let_def)
  next
    case False
    then have "\<lfloor>q\<rfloor> + 1 \<le> \<lfloor>r\<rfloor>" using f by simp
    moreover have "round_even q \<le> \<lfloor>q\<rfloor> + 1" using round_even_cases [of q] by auto
    moreover have "\<lfloor>r\<rfloor> \<le> round_even r" using round_even_cases [of r] by auto
    ultimately show ?thesis by linarith
  qed
qed

lemma round_even_minus: "round_even (- q) = - round_even q"
proof (cases "q = of_int \<lfloor>q\<rfloor>")
  case True
  then obtain n where "q = of_int n" by metis
  then have "- q = of_int (- n)" by simp
  then show ?thesis using \<open>q = of_int n\<close> by (simp only: round_even_int)
next
  case False
  then have lt: "of_int \<lfloor>q\<rfloor> < q" using of_int_floor_le [of q] by linarith
  have fl: "\<lfloor>- q\<rfloor> = - \<lfloor>q\<rfloor> - 1"
    using lt by (simp add: floor_eq_iff) linarith
  show ?thesis
    using lt by (auto simp: round_even_def Let_def fl)
qed

lemma round_even_nonneg: "0 \<le> q \<Longrightarrow> 0 \<le> round_even q"
  using round_even_mono [of 0 q] by simp

lemma round_even_le_twice: "0 \<le> q \<Longrightarrow> of_int (round_even q) \<le> 2 * q"
proof -
  assume q: "0 \<le> q"
  show ?thesis
  proof (cases "q < 1 / 2")
    case True
    then have "\<lfloor>q\<rfloor> = 0" using q by (simp add: floor_eq_iff)
    then have "round_even q = 0" using True by (simp add: round_even_def Let_def)
    then show ?thesis using q by simp
  next
    case False
    then show ?thesis using round_even_near(2) [of q] by linarith
  qed
qed

lemma p2_pos [simp]: "0 < (2::real) powi e"
  by simp

lemma p2_mono: "e \<le> e' \<Longrightarrow> (2::real) powi e \<le> 2 powi e'"
  by (rule power_int_increasing) simp_all

lemma p2_strict_mono: "e < e' \<Longrightarrow> (2::real) powi e < 2 powi e'"
  by (rule power_int_strict_increasing) simp_all

lemma p2_add: "(2::real) powi (e + k) = 2 powi e * 2 powi k"
  by (rule power_int_add) simp

lemma p2_24: "(2::real) powi (e + 24) = 16777216 * 2 powi e"
  by (simp add: p2_add)

lemma p2_23: "(2::real) powi (e + 23) = 8388608 * 2 powi e"
  by (simp add: p2_add)

lemma ulp_exp_minus [simp]: "ulp_exp (- x) = ulp_exp x"
  by (simp add: ulp_exp_def)

lemma ulp_exp_range: "- 149 \<le> ulp_exp x" "ulp_exp x \<le> 106"
  using bexp_bounds [of "- 126" 8 "\<bar>x\<bar>"] by (simp_all add: ulp_exp_def)

lemma ulp_exp_lower: "ulp_exp x = - 149 \<or> 2 powi (ulp_exp x + 23) \<le> \<bar>x\<bar>"
  using bexp_lower [of 8 "- 126" "\<bar>x\<bar>"] by (auto simp: ulp_exp_def)

lemma ulp_exp_upper: "\<bar>x\<bar> < 2 powi (ulp_exp x + 24) \<or> ulp_exp x = 106"
  using bexp_upper [of "\<bar>x\<bar>" 8 "- 126"] by (auto simp: ulp_exp_def add.commute)

lemma ulp_exp_mono: "\<bar>x\<bar> \<le> \<bar>y\<bar> \<Longrightarrow> ulp_exp x \<le> ulp_exp y"
  using bexp_mono [of "\<bar>x\<bar>" "\<bar>y\<bar>" 8 "- 126"] by (simp add: ulp_exp_def)

lemma ulp_exp_unique:
  assumes "- 149 \<le> e" "e \<le> 106" "e = - 149 \<or> 2 powi (e + 23) \<le> \<bar>x\<bar>"
    "\<bar>x\<bar> < 2 powi (e + 24)"
  shows "ulp_exp x = e"
proof (rule ccontr)
  assume ne: "ulp_exp x \<noteq> e"
  show False
  proof (cases "ulp_exp x < e")
    case True
    then have "ulp_exp x \<noteq> 106" using assms(2) by simp
    then have "\<bar>x\<bar> < 2 powi (ulp_exp x + 24)" using ulp_exp_upper [of x] by simp
    also have "\<dots> \<le> 2 powi (e + 23)" using True by (intro p2_mono) simp
    finally have "\<not> 2 powi (e + 23) \<le> \<bar>x\<bar>" by simp
    then have "e = - 149" using assms(3) by simp
    then show False using True ulp_exp_range(1) [of x] by simp
  next
    case False
    then have gt: "e < ulp_exp x" using ne by simp
    then have "ulp_exp x \<noteq> - 149" using assms(1) by simp
    then have "2 powi (ulp_exp x + 23) \<le> \<bar>x\<bar>" using ulp_exp_lower [of x] by simp
    moreover have "2 powi (e + 24) \<le> (2::real) powi (ulp_exp x + 23)"
      using gt by (intro p2_mono) simp
    ultimately show False using assms(4) by simp
  qed
qed

lemma rne_0 [simp]: "rne 0 = 0"
  by (simp add: rne_def)

lemma flt_max_less: "flt_max < 2 powi 128"
  by (simp add: flt_max_def)

lemma rne_minus: "rne (- x) = - rne x"
  by (simp add: rne_def round_even_minus)

lemma rne_nonneg: "0 \<le> x \<Longrightarrow> 0 \<le> rne x"
  by (simp add: rne_def round_even_nonneg)

lemma rne_le_twice: "0 \<le> x \<Longrightarrow> rne x \<le> 2 * x"
proof -
  assume x: "0 \<le> x"
  have "of_int (round_even (x / 2 powi ulp_exp x)) \<le> 2 * (x / 2 powi ulp_exp x)"
    using x by (intro round_even_le_twice) simp
  then have "of_int (round_even (x / 2 powi ulp_exp x)) * 2 powi ulp_exp x
      \<le> 2 * (x / 2 powi ulp_exp x) * 2 powi ulp_exp x"
    by (rule mult_right_mono) simp
  then show ?thesis by (simp add: rne_def)
qed

lemma rne_int_mult:
  "ulp_exp (of_int n * 2 powi e) = e \<Longrightarrow> rne (of_int n * 2 powi e) = of_int n * 2 powi e"
  by (simp add: rne_def)

lemma rne_le_pow:
  assumes "0 \<le> x" "x < 2 powi (ulp_exp x + 24)"
  shows "rne x \<le> 2 powi (ulp_exp x + 24)"
proof -
  have "x / 2 powi ulp_exp x \<le> of_int 16777216"
    using assms(2) by (simp add: p2_24 divide_le_eq)
  then have "round_even (x / 2 powi ulp_exp x) \<le> round_even (of_int 16777216)"
    by (rule round_even_mono)
  then have "round_even (x / 2 powi ulp_exp x) \<le> 16777216"
    by (simp only: round_even_int)
  then have "real_of_int (round_even (x / 2 powi ulp_exp x)) \<le> 16777216"
    by linarith
  then have "real_of_int (round_even (x / 2 powi ulp_exp x)) * 2 powi ulp_exp x
      \<le> 16777216 * 2 powi ulp_exp x"
    by (rule mult_right_mono) simp
  then show ?thesis by (simp add: rne_def p2_24)
qed

lemma rne_ge_pow:
  assumes "2 powi (ulp_exp x + 23) \<le> x"
  shows "2 powi (ulp_exp x + 23) \<le> rne x"
proof -
  have "of_int 8388608 \<le> x / 2 powi ulp_exp x"
    using assms by (simp add: p2_23 le_divide_eq)
  then have "round_even (of_int 8388608) \<le> round_even (x / 2 powi ulp_exp x)"
    by (rule round_even_mono)
  then have "8388608 \<le> round_even (x / 2 powi ulp_exp x)"
    by (simp only: round_even_int)
  then have "8388608 \<le> real_of_int (round_even (x / 2 powi ulp_exp x))"
    by linarith
  then have "8388608 * 2 powi ulp_exp x
      \<le> real_of_int (round_even (x / 2 powi ulp_exp x)) * 2 powi ulp_exp x"
    by (rule mult_right_mono) simp
  then show ?thesis by (simp add: rne_def p2_23)
qed

lemma rne_mono_nonneg:
  assumes "0 \<le> x" "x \<le> y"
  shows "rne x \<le> rne y"
proof -
  have le: "ulp_exp x \<le> ulp_exp y" using assms by (intro ulp_exp_mono) simp
  show ?thesis
  proof (cases "ulp_exp x = ulp_exp y")
    case True
    have "x / 2 powi ulp_exp y \<le> y / 2 powi ulp_exp y"
      using assms(2) by (intro divide_right_mono) simp_all
    then have "round_even (x / 2 powi ulp_exp y) \<le> round_even (y / 2 powi ulp_exp y)"
      by (rule round_even_mono)
    then have "real_of_int (round_even (x / 2 powi ulp_exp y))
       \<le> real_of_int (round_even (y / 2 powi ulp_exp y))"
      by simp
    then have "real_of_int (round_even (x / 2 powi ulp_exp y)) * 2 powi ulp_exp y
       \<le> real_of_int (round_even (y / 2 powi ulp_exp y)) * 2 powi ulp_exp y"
      by (rule mult_right_mono) simp
    then show ?thesis by (simp add: rne_def True)
  next
    case False
    then have lt: "ulp_exp x < ulp_exp y" using le by simp
    then have "ulp_exp x \<noteq> 106" using ulp_exp_range(2) [of y] by simp
    then have "x < 2 powi (ulp_exp x + 24)" using ulp_exp_upper [of x] assms(1) by simp
    then have a: "rne x \<le> 2 powi (ulp_exp x + 24)" using assms(1) by (intro rne_le_pow)
    have "ulp_exp y \<noteq> - 149" using lt ulp_exp_range(1) [of x] by simp
    then have "2 powi (ulp_exp y + 23) \<le> y" using ulp_exp_lower [of y] assms by simp
    then have b: "2 powi (ulp_exp y + 23) \<le> rne y" by (rule rne_ge_pow)
    have "(2::real) powi (ulp_exp x + 24) \<le> 2 powi (ulp_exp y + 23)"
      using lt by (intro p2_mono) simp
    then show ?thesis using a b by linarith
  qed
qed

lemma rne_mono: "x \<le> y \<Longrightarrow> rne x \<le> rne y"
proof -
  assume xy: "x \<le> y"
  show ?thesis
  proof (cases "0 \<le> x")
    case True
    then show ?thesis using xy by (rule rne_mono_nonneg)
  next
    case False
    show ?thesis
    proof (cases "0 \<le> y")
      case True
      have "rne (- x) \<ge> 0" using False by (intro rne_nonneg) simp
      then have "rne x \<le> 0" by (simp add: rne_minus)
      then show ?thesis using rne_nonneg [OF True] by linarith
    next
      case y: False
      have "rne (- y) \<le> rne (- x)" using xy y by (intro rne_mono_nonneg) simp_all
      then show ?thesis by (simp add: rne_minus)
    qed
  qed
qed

lemma rne_idem_nonneg:
  assumes "0 \<le> z" "rne z < 2 powi 128"
  shows "rne (rne z) = rne z"
proof -
  let ?e = "ulp_exp z"
  let ?n = "round_even (z / 2 powi ?e)"
  have y: "rne z = of_int ?n * 2 powi ?e" by (simp add: rne_def)
  have y0: "0 \<le> rne z" using assms(1) by (rule rne_nonneg)
  have e105: "?e < 105"
  proof (rule ccontr)
    assume "\<not> ?e < 105"
    then have e: "105 \<le> ?e" by simp
    then have "2 powi (?e + 23) \<le> z" using ulp_exp_lower [of z] assms(1) by simp
    then have "2 powi (?e + 23) \<le> rne z" by (rule rne_ge_pow)
    moreover have "(2::real) powi 128 \<le> 2 powi (?e + 23)" using e by (intro p2_mono) simp
    ultimately show False using assms(2) by simp
  qed
  then have zu: "z < 2 powi (?e + 24)" using ulp_exp_upper [of z] assms(1) by simp
  then have yu: "rne z \<le> 2 powi (?e + 24)" using assms(1) by (intro rne_le_pow)
  have yl: "?e = - 149 \<or> 2 powi (?e + 23) \<le> rne z"
    using ulp_exp_lower [of z] assms(1) rne_ge_pow [of z] by auto
  show ?thesis
  proof (cases "rne z < 2 powi (?e + 24)")
    case True
    have "ulp_exp (rne z) = ?e"
      using ulp_exp_range [of z] yl True y0 by (intro ulp_exp_unique) auto
    then show ?thesis using rne_int_mult [of ?n ?e] by (simp add: y)
  next
    case False
    then have eq: "rne z = 2 powi (?e + 24)" using yu by simp
    have e1: "ulp_exp (rne z) = ?e + 1"
    proof (rule ulp_exp_unique)
      show "- 149 \<le> ?e + 1" using ulp_exp_range(1) [of z] by simp
      show "?e + 1 \<le> 106" using e105 by simp
      show "?e + 1 = - 149 \<or> 2 powi (?e + 1 + 23) \<le> \<bar>rne z\<bar>"
        by (simp add: eq add.commute add.left_commute)
      show "\<bar>rne z\<bar> < 2 powi (?e + 1 + 24)"
        unfolding eq by (simp add: p2_strict_mono)
    qed
    have "rne z = of_int 8388608 * 2 powi (?e + 1)"
      by (simp add: eq p2_add)
    then show ?thesis using rne_int_mult [of 8388608 "?e + 1"] e1 by simp
  qed
qed

lemma fl_idem: "fl z = Fin y \<Longrightarrow> fl y = Fin y"
proof -
  assume a: "fl z = Fin y"
  then have y: "y = rne z" and b: "\<not> flt_max < rne z" "\<not> rne z < - flt_max"
    by (auto simp: fl_def Let_def split: if_splits)
  have "rne y = y"
  proof (cases "0 \<le> z")
    case True
    then show ?thesis using b(1) flt_max_less unfolding y by (intro rne_idem_nonneg) simp_all
  next
    case False
    have "rne (rne (- z)) = rne (- z)"
      using False b(2) flt_max_less by (intro rne_idem_nonneg) (simp_all add: rne_minus)
    then show ?thesis unfolding y by (simp add: rne_minus)
  qed
  then show ?thesis using b by (simp add: fl_def Let_def y)
qed

lemma w_vals: "w0_32 = Fin (14913081 / 33554432)" "w1_32 = Fin (14913081 / 134217728)"
  "w2_32 = Fin (14913081 / 536870912)"
  by (simp_all add: w0_32_def w1_32_def w2_32_def fl_eval)

subsection \<open>The binary32 kernel: the loop bodies\<close>

lemma wf_grid32_len:
  assumes "wf_grid32 p c"
  shows "int (length (s0_32 c)) = nx p * ny p" "int (length (s1_32 c)) = nx p * ny p"
    "int (length (s2_32 c)) = nx p * ny p" "int (length (s3_32 c)) = nx p * ny p"
    "int (length (s4_32 c)) = nx p * ny p" "int (length (s5_32 c)) = nx p * ny p"
    "int (length (s6_32 c)) = nx p * ny p" "int (length (s7_32 c)) = nx p * ny p"
    "int (length (s8_32 c)) = nx p * ny p"
  using assms by (simp_all add: wf_grid32_def)

lemma accelerate_cell32_wf:
  assumes "wf_grid32 p (cells32 m)" "int (length (obstacles32 m)) = nx p * ny p"
    and k: "0 \<le> ii + (ny p - 2) * nx p" "ii + (ny p - 2) * nx p < nx p * ny p"
  shows "\<exists>m'. accelerate_cell32 p ii m = Some m' \<and> wf_grid32 p (cells32 m') \<and>
    obstacles32 m' = obstacles32 m \<and> tmp_cells32 m' = tmp_cells32 m"
  using wf_grid32_len [OF assms(1)] assms(2) k
  by (simp add: accelerate_cell32_def Let_def wf_grid32_def)

lemma accelerate_loop32_wf:
  assumes "wf_grid32 p (cells32 m)" "int (length (obstacles32 m)) = nx p * ny p" "2 \<le> ny p" "0 \<le> i0"
  shows "\<exists>m'. accelerate_loop32 p i0 m = Some m' \<and> wf_grid32 p (cells32 m') \<and>
    obstacles32 m' = obstacles32 m \<and> tmp_cells32 m' = tmp_cells32 m"
  using assms
proof (induction p i0 m rule: accelerate_loop32.induct)
  case (1 p i0 m)
  show ?case
  proof (cases "i0 < nx p")
    case False
    then show ?thesis using "1.prems" by (subst accelerate_loop32.simps) simp
  next
    case True
    have j: "0 \<le> ny p - 2" "ny p - 2 < ny p" using "1.prems"(3) by simp_all
    note k = idx_bounds [OF "1.prems"(4) True j]
    from accelerate_cell32_wf [OF "1.prems"(1,2) k]
    obtain m1 where m1: "accelerate_cell32 p i0 m = Some m1" "wf_grid32 p (cells32 m1)"
      "obstacles32 m1 = obstacles32 m" "tmp_cells32 m1 = tmp_cells32 m"
      by blast
    have l1: "int (length (obstacles32 m1)) = nx p * ny p" using m1(3) "1.prems"(2) by simp
    have i1: "0 \<le> i0 + 1" using "1.prems"(4) by simp
    from "1.IH" [OF True m1(1,2) l1 "1.prems"(3) i1]
    obtain m' where m': "accelerate_loop32 p (i0 + 1) m1 = Some m'" "wf_grid32 p (cells32 m')"
      "obstacles32 m' = obstacles32 m1" "tmp_cells32 m' = tmp_cells32 m1"
      by blast
    have "accelerate_loop32 p i0 m = Some m'"
      using True m1(1) m'(1) by (subst accelerate_loop32.simps) simp
    then show ?thesis using m' m1 by simp
  qed
qed

lemma accelerate_flow32_wf:
  assumes "wf_state32 p m" "2 \<le> ny p"
  shows "\<exists>m1. accelerate_flow32 p m = Some m1 \<and> wf_state32 p m1 \<and>
    obstacles32 m1 = obstacles32 m \<and> tmp_cells32 m1 = tmp_cells32 m"
proof -
  have wf: "wf_grid32 p (cells32 m)" "int (length (obstacles32 m)) = nx p * ny p"
    using assms(1) by (simp_all add: wf_state32_def)
  from accelerate_loop32_wf [OF wf assms(2) order_refl] obtain m1 where
    m1: "accelerate_loop32 p 0 m = Some m1" "wf_grid32 p (cells32 m1)"
      "obstacles32 m1 = obstacles32 m" "tmp_cells32 m1 = tmp_cells32 m"
    by blast
  then show ?thesis using assms(1) by (simp add: accelerate_flow32_def wf_state32_def)
qed

lemma propagate_cell32_streamed:
  assumes "wf_grid32 p c" "0 \<le> ii" "ii < nx p" "0 \<le> jj" "jj < ny p"
  shows "propagate_cell32 p c jj ii = Some (streamed32 p c jj ii)"
proof -
  have n: "0 < nx p" "0 < ny p" using assms by auto
  note len = wf_grid32_len [OF assms(1)]
  have xw: "(if ii = 0 then ii + nx p - 1 else ii - 1) = (ii - 1) mod nx p"
    using assms n by (auto simp: mod_pos_pos_trivial zmod_minus1)
  have ys: "(if jj = 0 then jj + ny p - 1 else jj - 1) = (jj - 1) mod ny p"
    using assms n by (auto simp: mod_pos_pos_trivial zmod_minus1)
  have x0: "ii mod nx p = ii" and y0: "jj mod ny p = jj"
    using assms by simp_all
  have bx: "\<And>a. 0 \<le> a mod nx p \<and> a mod nx p < nx p" using n by simp
  have by': "\<And>b. 0 \<le> b mod ny p \<and> b mod ny p < ny p" using n by simp
  have rdm: "\<And>(xs :: f32 list) a b. int (length xs) = nx p * ny p \<Longrightarrow>
      rd xs (a mod nx p + (b mod ny p) * nx p) = Some (xs ! nat (a mod nx p + (b mod ny p) * nx p))"
    using idx_bounds [OF conjunct1 [OF bx] conjunct2 [OF bx] conjunct1 [OF by'] conjunct2 [OF by']]
    by (simp add: rd_def)
  show ?thesis
    unfolding propagate_cell32_def Let_def xw ys
    using rdm [OF len(1), of ii jj] rdm [OF len(2), of "ii - 1" jj] rdm [OF len(3), of ii "jj - 1"]
      rdm [OF len(4), of "ii + 1" jj] rdm [OF len(5), of ii "jj + 1"]
      rdm [OF len(6), of "ii - 1" "jj - 1"] rdm [OF len(7), of "ii + 1" "jj - 1"]
      rdm [OF len(8), of "ii + 1" "jj + 1"] rdm [OF len(9), of "ii - 1" "jj + 1"]
    by (simp add: x0 y0 streamed32_def speed32_def e_x_def e_y_def)
qed

lemma length_relax32: "length (relax32 p pr de) = 9"
  by (simp add: relax32_def)

lemma wf_grid32_set_cell: "wf_grid32 p (set_cell32 t k vs) = wf_grid32 p t"
  by (simp add: wf_grid32_def set_cell32_def)

lemma cell_at32_set_cell:
  "wf_grid32 p t \<Longrightarrow> int k < nx p * ny p \<Longrightarrow> length vs = 9 \<Longrightarrow>
     cell_at32 (set_cell32 t k vs) k' = (if k' = k then vs else cell_at32 t k')"
  using wf_grid32_len [of p t] list9 [of vs] by (simp add: cell_at32_def set_cell32_def)

lemma rebound_cell32_wf:
  assumes "wf_grid32 p t" "0 \<le> k" "k < nx p * ny p"
  shows "rebound_cell32 t k pr = Some (set_cell32 t (nat k)
     [s0_32 t ! nat k, pr ! 3, pr ! 4, pr ! 1, pr ! 2, pr ! 7, pr ! 8, pr ! 5, pr ! 6])"
  using wf_grid32_len [OF assms(1)] assms(2,3)
  by (simp add: rebound_cell32_def set_cell32_def)

lemma collision_cell32_wf:
  assumes "wf_grid32 p t" "0 \<le> k" "k < nx p * ny p"
  shows "collision_cell32 p t k pr =
     Some (set_cell32 t (nat k) (relax32 p pr (equilibrium32 pr)), u_sq32 (u_x32 pr) (u_y32 pr))"
  using wf_grid32_len [OF assms(1)] assms(2-)
  by (simp add: collision_cell32_def set_cell32_def equilibrium32_def Let_def)

lemma timestep_cell32_wf:
  assumes "wf_grid32 p (cells32 (mem32 st))" "wf_grid32 p (tmp_cells32 (mem32 st))"
    "int (length (obstacles32 (mem32 st))) = nx p * ny p"
    "0 \<le> ii" "ii < nx p" "0 \<le> jj" "jj < ny p"
  shows "timestep_cell32 p jj ii st =
    (if is_open p (obstacles32 (mem32 st)) jj ii
     then Some (st\<lparr>mem32 := (mem32 st)\<lparr>tmp_cells32 :=
                  set_cell32 (tmp_cells32 (mem32 st)) (row_index p jj ii) (cell_new32 p (mem32 st) jj ii)\<rparr>,
                tot_cells32 := tot_cells32 st + 1,
                tot_u32 := add32 (tot_u32 st) (cell_speed32 (streamed32 p (cells32 (mem32 st)) jj ii))\<rparr>)
     else Some (st\<lparr>mem32 := (mem32 st)\<lparr>tmp_cells32 :=
                  set_cell32 (tmp_cells32 (mem32 st)) (row_index p jj ii) (cell_new32 p (mem32 st) jj ii)\<rparr>\<rparr>))"
proof -
  have kb: "0 \<le> ii + jj * nx p" "ii + jj * nx p < nx p * ny p"
    using idx_bounds [of ii "nx p" jj "ny p"] assms by simp_all
  have kb': "0 \<le> jj * nx p + ii" "jj * nx p + ii < int (length (obstacles32 (mem32 st)))"
    using kb assms(3) by (simp_all add: add.commute)
  have ob: "rd (obstacles32 (mem32 st)) (jj * nx p + ii) = Some (obstacles32 (mem32 st) ! row_index p jj ii)"
    using kb' by (simp add: rd_def row_index_def add.commute)
  note pc = propagate_cell32_streamed [OF assms(1,4-7)]
  show ?thesis
  proof (cases "is_open p (obstacles32 (mem32 st)) jj ii")
    case False
    then show ?thesis
      using pc ob rebound_cell32_wf [OF assms(2) kb]
      by (simp add: timestep_cell32_def Let_def is_open_def cell_new32_def row_index_def)
  next
    case True
    then show ?thesis
      using pc ob collision_cell32_wf [OF assms(2) kb]
      by (simp add: timestep_cell32_def Let_def is_open_def cell_new32_def row_index_def cell_speed32_def)
  qed
qed

subsection \<open>The binary32 kernel: the loops of the stream-collide pass\<close>

lemma cell_new32_cong:
  "cells32 m' = cells32 m \<Longrightarrow> obstacles32 m' = obstacles32 m \<Longrightarrow>
    cell_at32 (tmp_cells32 m') (row_index p jj ii) = cell_at32 (tmp_cells32 m) (row_index p jj ii) \<Longrightarrow>
    cell_new32 p m' jj ii = cell_new32 p m jj ii"
  by (simp add: cell_new32_def cell_at32_def Let_def)

lemma timestep_ii32_result:
  assumes "wf_grid32 p (cells32 (mem32 st))" "wf_grid32 p (tmp_cells32 (mem32 st))"
    "int (length (obstacles32 (mem32 st))) = nx p * ny p" "0 \<le> jj" "jj < ny p" "0 \<le> i0"
  shows "\<exists>st'. timestep_ii32 p jj i0 st = Some st' \<and> cells32 (mem32 st') = cells32 (mem32 st) \<and>
      obstacles32 (mem32 st') = obstacles32 (mem32 st) \<and> wf_grid32 p (tmp_cells32 (mem32 st')) \<and>
      (\<forall>ii. i0 \<le> ii \<and> ii < nx p \<longrightarrow>
         cell_at32 (tmp_cells32 (mem32 st')) (row_index p jj ii) = cell_new32 p (mem32 st) jj ii) \<and>
      (\<forall>k. (\<forall>ii. i0 \<le> ii \<and> ii < nx p \<longrightarrow> k \<noteq> row_index p jj ii) \<longrightarrow>
         cell_at32 (tmp_cells32 (mem32 st')) k = cell_at32 (tmp_cells32 (mem32 st)) k) \<and>
      tot_cells32 st' = tot_cells32 st + int (length (open_cols p (obstacles32 (mem32 st)) jj i0)) \<and>
      tot_u32 st' = foldl add32 (tot_u32 st)
          (map (\<lambda>ii. cell_speed32 (streamed32 p (cells32 (mem32 st)) jj ii))
               (open_cols p (obstacles32 (mem32 st)) jj i0))"
  using assms
proof (induction p jj i0 st rule: timestep_ii32.induct)
  case (1 p jj i0 st)
  let ?R = "row_index p jj"
  let ?m = "mem32 st"
  show ?case
  proof (cases "i0 < nx p")
    case False
    then show ?thesis using "1.prems" by (subst timestep_ii32.simps) (auto simp: open_cols_done)
  next
    case True
    have kR: "int (?R i0) < nx p * ny p"
      using idx_bounds [of i0 "nx p" jj "ny p"] True "1.prems" by (simp add: row_index_def)
    define t1 where "t1 = set_cell32 (tmp_cells32 ?m) (?R i0) (cell_new32 p ?m jj i0)"
    define st1 where "st1 = (if is_open p (obstacles32 ?m) jj i0
       then st\<lparr>mem32 := ?m\<lparr>tmp_cells32 := t1\<rparr>, tot_cells32 := tot_cells32 st + 1,
                tot_u32 := add32 (tot_u32 st) (cell_speed32 (streamed32 p (cells32 ?m) jj i0))\<rparr>
       else st\<lparr>mem32 := ?m\<lparr>tmp_cells32 := t1\<rparr>\<rparr>)"
    have step: "timestep_cell32 p jj i0 st = Some st1"
      using timestep_cell32_wf [OF "1.prems"(1,2,3,6) True "1.prems"(4,5)]
      by (auto simp: st1_def t1_def)
    have st1: "cells32 (mem32 st1) = cells32 ?m" "obstacles32 (mem32 st1) = obstacles32 ?m"
      "tmp_cells32 (mem32 st1) = t1"
      by (simp_all add: st1_def)
    have wf1: "wf_grid32 p (cells32 (mem32 st1))" "wf_grid32 p (tmp_cells32 (mem32 st1))"
      "int (length (obstacles32 (mem32 st1))) = nx p * ny p"
      using "1.prems" by (simp_all add: st1 t1_def wf_grid32_set_cell)
    have len_new: "length (cell_new32 p ?m jj i0) = 9"
      by (simp add: cell_new32_def Let_def length_relax32)
    have t1_at: "\<And>k. cell_at32 t1 k = (if k = ?R i0 then cell_new32 p ?m jj i0 else cell_at32 (tmp_cells32 ?m) k)"
      unfolding t1_def using cell_at32_set_cell [OF "1.prems"(2) kR len_new] by simp
    have i1: "0 \<le> i0 + 1" using "1.prems"(6) by simp
    from "1.IH" [OF True step wf1 "1.prems"(4,5) i1]
    obtain st' where st': "timestep_ii32 p jj (i0 + 1) st1 = Some st'"
      "cells32 (mem32 st') = cells32 (mem32 st1)" "obstacles32 (mem32 st') = obstacles32 (mem32 st1)"
      "wf_grid32 p (tmp_cells32 (mem32 st'))"
      "tot_cells32 st' = tot_cells32 st1 + int (length (open_cols p (obstacles32 (mem32 st1)) jj (i0 + 1)))"
      "tot_u32 st' = foldl add32 (tot_u32 st1)
          (map (\<lambda>ii. cell_speed32 (streamed32 p (cells32 (mem32 st1)) jj ii))
               (open_cols p (obstacles32 (mem32 st1)) jj (i0 + 1)))"
      and inrow: "\<And>ii. i0 + 1 \<le> ii \<Longrightarrow> ii < nx p \<Longrightarrow>
         cell_at32 (tmp_cells32 (mem32 st')) (?R ii) = cell_new32 p (mem32 st1) jj ii"
      and frame: "\<And>k. (\<forall>ii. i0 + 1 \<le> ii \<and> ii < nx p \<longrightarrow> k \<noteq> ?R ii) \<Longrightarrow>
         cell_at32 (tmp_cells32 (mem32 st')) k = cell_at32 (tmp_cells32 (mem32 st1)) k"
      by auto
    have loop: "timestep_ii32 p jj i0 st = Some st'"
      using True step st'(1) by (subst timestep_ii32.simps) simp
    have ne: "\<And>ii. i0 + 1 \<le> ii \<Longrightarrow> ii < nx p \<Longrightarrow> ?R ii \<noteq> ?R i0"
      using row_index_inj [of _ p i0 jj jj] "1.prems"(4,6) True by auto
    have row: "cell_at32 (tmp_cells32 (mem32 st')) (?R ii) = cell_new32 p ?m jj ii"
      if ii: "i0 \<le> ii" "ii < nx p" for ii
    proof (cases "ii = i0")
      case True
      have "\<forall>ii. i0 + 1 \<le> ii \<and> ii < nx p \<longrightarrow> ?R i0 \<noteq> ?R ii"
        using ne by fastforce
      then have "cell_at32 (tmp_cells32 (mem32 st')) (?R i0) = cell_at32 (tmp_cells32 (mem32 st1)) (?R i0)"
        by (rule frame)
      then show ?thesis using True t1_at st1 by simp
    next
      case False
      then have ii': "i0 + 1 \<le> ii" using ii by simp
      have same: "cell_at32 (tmp_cells32 (mem32 st1)) (?R ii) = cell_at32 (tmp_cells32 ?m) (?R ii)"
        using t1_at ne [OF ii' ii(2)] st1 by simp
      show ?thesis
        using inrow [OF ii' ii(2)] cell_new32_cong [OF st1(1,2) same] by simp
    qed
    have fr: "cell_at32 (tmp_cells32 (mem32 st')) k = cell_at32 (tmp_cells32 ?m) k"
      if "\<forall>ii. i0 \<le> ii \<and> ii < nx p \<longrightarrow> k \<noteq> ?R ii" for k
    proof -
      have "k \<noteq> ?R i0" using that True by auto
      moreover have "\<forall>ii. i0 + 1 \<le> ii \<and> ii < nx p \<longrightarrow> k \<noteq> ?R ii"
        using that by simp
      then have "cell_at32 (tmp_cells32 (mem32 st')) k = cell_at32 (tmp_cells32 (mem32 st1)) k" by (rule frame)
      ultimately show ?thesis using t1_at st1 by simp
    qed
    have cnt: "tot_cells32 st' = tot_cells32 st + int (length (open_cols p (obstacles32 ?m) jj i0))"
      using st'(5) by (simp add: st1 open_cols_step [OF True]) (simp add: st1_def)
    have su: "tot_u32 st' = foldl add32 (tot_u32 st)
          (map (\<lambda>ii. cell_speed32 (streamed32 p (cells32 ?m) jj ii)) (open_cols p (obstacles32 ?m) jj i0))"
      using st'(6) by (simp add: st1 open_cols_step [OF True]) (simp add: st1_def)
    show ?thesis using loop st'(2,3,4) st1 row fr cnt su by auto
  qed
qed

lemma timestep_jj32_result:
  assumes "wf_grid32 p (cells32 (mem32 st))" "wf_grid32 p (tmp_cells32 (mem32 st))"
    "int (length (obstacles32 (mem32 st))) = nx p * ny p" "0 \<le> j0"
  shows "\<exists>st'. timestep_jj32 p j0 st = Some st' \<and> cells32 (mem32 st') = cells32 (mem32 st) \<and>
      obstacles32 (mem32 st') = obstacles32 (mem32 st) \<and> wf_grid32 p (tmp_cells32 (mem32 st')) \<and>
      (\<forall>jj ii. j0 \<le> jj \<and> jj < ny p \<and> 0 \<le> ii \<and> ii < nx p \<longrightarrow>
         cell_at32 (tmp_cells32 (mem32 st')) (row_index p jj ii) = cell_new32 p (mem32 st) jj ii) \<and>
      (\<forall>k. (\<forall>jj ii. j0 \<le> jj \<and> jj < ny p \<and> 0 \<le> ii \<and> ii < nx p \<longrightarrow> k \<noteq> row_index p jj ii) \<longrightarrow>
         cell_at32 (tmp_cells32 (mem32 st')) k = cell_at32 (tmp_cells32 (mem32 st)) k) \<and>
      tot_cells32 st' = tot_cells32 st + int (length (open_cells_from p (obstacles32 (mem32 st)) j0)) \<and>
      tot_u32 st' = foldl add32 (tot_u32 st)
          (map (\<lambda>(jj, ii). cell_speed32 (streamed32 p (cells32 (mem32 st)) jj ii))
               (open_cells_from p (obstacles32 (mem32 st)) j0))"
  using assms
proof (induction p j0 st rule: timestep_jj32.induct)
  case (1 p j0 st)
  let ?m = "mem32 st"
  show ?case
  proof (cases "j0 < ny p")
    case False
    then show ?thesis using "1.prems" by (subst timestep_jj32.simps) (auto simp: open_cells_from_done)
  next
    case True
    from timestep_ii32_result [OF "1.prems"(1,2,3,4) True order_refl]
    obtain st1 where st1: "timestep_ii32 p j0 0 st = Some st1" "cells32 (mem32 st1) = cells32 ?m"
      "obstacles32 (mem32 st1) = obstacles32 ?m" "wf_grid32 p (tmp_cells32 (mem32 st1))"
      "tot_cells32 st1 = tot_cells32 st + int (length (open_cols p (obstacles32 ?m) j0 0))"
      "tot_u32 st1 = foldl add32 (tot_u32 st)
          (map (\<lambda>ii. cell_speed32 (streamed32 p (cells32 ?m) j0 ii)) (open_cols p (obstacles32 ?m) j0 0))"
      and row1: "\<And>ii. 0 \<le> ii \<Longrightarrow> ii < nx p \<Longrightarrow>
         cell_at32 (tmp_cells32 (mem32 st1)) (row_index p j0 ii) = cell_new32 p ?m j0 ii"
      and frame1: "\<And>k. (\<forall>ii. 0 \<le> ii \<and> ii < nx p \<longrightarrow> k \<noteq> row_index p j0 ii) \<Longrightarrow>
         cell_at32 (tmp_cells32 (mem32 st1)) k = cell_at32 (tmp_cells32 ?m) k"
      by auto
    have wf1: "wf_grid32 p (cells32 (mem32 st1))" "int (length (obstacles32 (mem32 st1))) = nx p * ny p"
      using "1.prems" st1 by simp_all
    have j1: "0 \<le> j0 + 1" using "1.prems"(4) by simp
    from "1.IH" [OF True st1(1) wf1(1) st1(4) wf1(2) j1]
    obtain st' where st': "timestep_jj32 p (j0 + 1) st1 = Some st'"
      "cells32 (mem32 st') = cells32 (mem32 st1)" "obstacles32 (mem32 st') = obstacles32 (mem32 st1)"
      "wf_grid32 p (tmp_cells32 (mem32 st'))"
      "tot_cells32 st' = tot_cells32 st1 + int (length (open_cells_from p (obstacles32 (mem32 st1)) (j0 + 1)))"
      "tot_u32 st' = foldl add32 (tot_u32 st1)
          (map (\<lambda>(jj, ii). cell_speed32 (streamed32 p (cells32 (mem32 st1)) jj ii))
               (open_cells_from p (obstacles32 (mem32 st1)) (j0 + 1)))"
      and rows: "\<And>jj ii. j0 + 1 \<le> jj \<Longrightarrow> jj < ny p \<Longrightarrow> 0 \<le> ii \<Longrightarrow> ii < nx p \<Longrightarrow>
         cell_at32 (tmp_cells32 (mem32 st')) (row_index p jj ii) = cell_new32 p (mem32 st1) jj ii"
      and frame: "\<And>k. (\<forall>jj ii. j0 + 1 \<le> jj \<and> jj < ny p \<and> 0 \<le> ii \<and> ii < nx p \<longrightarrow>
            k \<noteq> row_index p jj ii) \<Longrightarrow>
         cell_at32 (tmp_cells32 (mem32 st')) k = cell_at32 (tmp_cells32 (mem32 st1)) k"
      by auto
    have loop: "timestep_jj32 p j0 st = Some st'"
      using True st1(1) st'(1) by (subst timestep_jj32.simps) simp
    have ne: "row_index p jj ii \<noteq> row_index p j0 ii'"
      if "j0 + 1 \<le> jj" "0 \<le> ii" "ii < nx p" "0 \<le> ii'" "ii' < nx p" for jj ii ii'
      using row_index_inj [of ii p ii' jj j0] that "1.prems"(4) by auto
    have cells_at: "cell_at32 (tmp_cells32 (mem32 st')) (row_index p jj ii) = cell_new32 p ?m jj ii"
      if c: "j0 \<le> jj" "jj < ny p" "0 \<le> ii" "ii < nx p" for jj ii
    proof (cases "jj = j0")
      case True
      have "\<forall>jj' ii'. j0 + 1 \<le> jj' \<and> jj' < ny p \<and> 0 \<le> ii' \<and> ii' < nx p \<longrightarrow>
          row_index p j0 ii \<noteq> row_index p jj' ii'"
        using ne c by fastforce
      then have "cell_at32 (tmp_cells32 (mem32 st')) (row_index p j0 ii) =
          cell_at32 (tmp_cells32 (mem32 st1)) (row_index p j0 ii)"
        by (rule frame)
      then show ?thesis using True row1 [OF c(3,4)] by simp
    next
      case False
      then have jj': "j0 + 1 \<le> jj" using c by simp
      have "\<forall>ii'. 0 \<le> ii' \<and> ii' < nx p \<longrightarrow> row_index p jj ii \<noteq> row_index p j0 ii'"
        using ne [OF jj' c(3,4)] by simp
      then have same: "cell_at32 (tmp_cells32 (mem32 st1)) (row_index p jj ii) =
          cell_at32 (tmp_cells32 ?m) (row_index p jj ii)"
        by (rule frame1)
      show ?thesis
        using rows [OF jj' c(2,3,4)] cell_new32_cong [OF st1(2,3) same] by simp
    qed
    have fr: "cell_at32 (tmp_cells32 (mem32 st')) k = cell_at32 (tmp_cells32 ?m) k"
      if k: "\<forall>jj ii. j0 \<le> jj \<and> jj < ny p \<and> 0 \<le> ii \<and> ii < nx p \<longrightarrow> k \<noteq> row_index p jj ii" for k
    proof -
      have "\<forall>ii. 0 \<le> ii \<and> ii < nx p \<longrightarrow> k \<noteq> row_index p j0 ii"
        using k True by auto
      then have a: "cell_at32 (tmp_cells32 (mem32 st1)) k = cell_at32 (tmp_cells32 ?m) k" by (rule frame1)
      have "\<forall>jj ii. j0 + 1 \<le> jj \<and> jj < ny p \<and> 0 \<le> ii \<and> ii < nx p \<longrightarrow> k \<noteq> row_index p jj ii"
        using k by simp
      then have "cell_at32 (tmp_cells32 (mem32 st')) k = cell_at32 (tmp_cells32 (mem32 st1)) k" by (rule frame)
      with a show ?thesis by simp
    qed
    have cnt: "tot_cells32 st' = tot_cells32 st + int (length (open_cells_from p (obstacles32 ?m) j0))"
      using st'(5) st1(5) by (simp add: st1(3) open_cells_from_step [OF True])
    have su: "tot_u32 st' = foldl add32 (tot_u32 st)
          (map (\<lambda>(jj, ii). cell_speed32 (streamed32 p (cells32 ?m) jj ii))
               (open_cells_from p (obstacles32 ?m) j0))"
      using st'(6) st1(6) by (simp add: st1(2,3) open_cells_from_step [OF True] comp_def)
    show ?thesis using loop st'(2,3,4) st1(2,3) cells_at fr cnt su by auto
  qed
qed

lemma stream_collide32_result:
  assumes "wf_state32 p m"
  shows "\<exists>st. stream_collide32 p m = Some st \<and>
      cells32 (mem32 st) = cells32 m \<and> obstacles32 (mem32 st) = obstacles32 m \<and>
      wf_grid32 p (tmp_cells32 (mem32 st)) \<and>
      (\<forall>jj ii. 0 \<le> jj \<and> jj < ny p \<and> 0 \<le> ii \<and> ii < nx p \<longrightarrow>
         cell_at32 (tmp_cells32 (mem32 st)) (row_index p jj ii) = cell_new32 p m jj ii) \<and>
      tot_cells32 st = int (length (open_cells_from p (obstacles32 m) 0)) \<and>
      tot_u32 st = foldl add32 (Fin 0)
          (map (\<lambda>(jj, ii). cell_speed32 (streamed32 p (cells32 m) jj ii))
               (open_cells_from p (obstacles32 m) 0))"
proof -
  let ?st0 = "\<lparr>mem32 = m, tot_cells32 = 0, tot_u32 = Fin 0\<rparr>"
  have wf: "wf_grid32 p (cells32 (mem32 ?st0))" "wf_grid32 p (tmp_cells32 (mem32 ?st0))"
    "int (length (obstacles32 (mem32 ?st0))) = nx p * ny p"
    using assms(1) by (simp_all add: wf_state32_def)
  from timestep_jj32_result [OF wf order_refl] show ?thesis
    by (auto simp: stream_collide32_def)
qed

subsection \<open>The binary32 kernel: relaxation\<close>

lemma mul32_Fin_repr: "mul32 a b = Fin y \<Longrightarrow> fl y = Fin y"
  by (cases a; cases b) (auto simp: fl_idem split: if_splits)

lemma less9_cases: "d < 9 \<Longrightarrow> d = 0 \<or> d = 1 \<or> d = 2 \<or> d = 3 \<or> d = 4 \<or> d = 5 \<or> d = 6 \<or> d = 7 \<or> d = (8::nat)"
  by arith

lemma d_equ32_repr: "d < 9 \<Longrightarrow> d_equ32 ld ux uy ! d = Fin y \<Longrightarrow> fl y = Fin y"
  using less9_cases [of d]
  by (auto simp: d_equ32_def d_equ_dir32_def Let_def mul32_Fin_repr)

lemma relax32_nth: "d < 9 \<Longrightarrow> relax32 p pr de ! d = relax_dir32 p (pr ! d) (de ! d)"
  using less9_cases [of d] by (auto simp: relax32_def)

lemma fl_one: "fl 1 = Fin 1"
  by (simp add: fl_eval)

lemma relax_dir32_exact:
  assumes "omega p = 1" "fl (y - x) = Fin (y - x)" "fl y = Fin y"
  shows "relax_dir32 p (Fin x) (Fin y) = Fin y"
  using assms by (simp add: relax_dir32_def sub32_def fl_one)

lemma p2_nat: "0 \<le> k \<Longrightarrow> (2::real) powi k = of_int (2 ^ nat k)"
  by (simp add: power_int_def)

lemma scale_down:
  fixes x :: real
  assumes "x = of_int M * 2 powi ex" "e \<le> ex"
  shows "\<exists>M'. x = of_int M' * 2 powi e"
proof -
  have "(2::real) powi ex = 2 powi (e + (ex - e))" by simp
  also have "\<dots> = 2 powi e * 2 powi (ex - e)" by (rule p2_add)
  also have "\<dots> = 2 powi e * of_int (2 ^ nat (ex - e))" using assms(2) by (simp add: p2_nat)
  finally have "x = of_int (M * 2 ^ nat (ex - e)) * 2 powi e" using assms(1) by simp
  then show ?thesis ..
qed

lemma rne_fixed_form: "rne x = x \<Longrightarrow> x = of_int (round_even (x / 2 powi ulp_exp x)) * 2 powi ulp_exp x"
  unfolding rne_def by (rule sym)

text \<open>The difference of two binary32 numbers that is not larger in magnitude than either of
  them is a binary32 number (Sterbenz).\<close>

lemma rne_diff_exact:
  assumes "rne a = a" "rne b = b" "\<bar>a - b\<bar> \<le> \<bar>a\<bar>" "\<bar>a - b\<bar> \<le> \<bar>b\<bar>"
  shows "rne (a - b) = a - b"
proof -
  let ?e = "ulp_exp (a - b)"
  have ea: "?e \<le> ulp_exp a" using assms(3) by (intro ulp_exp_mono) simp
  have eb: "?e \<le> ulp_exp b" using assms(4) by (intro ulp_exp_mono) simp
  from scale_down [OF rne_fixed_form [OF assms(1)] ea] obtain A where A: "a = of_int A * 2 powi ?e" ..
  from scale_down [OF rne_fixed_form [OF assms(2)] eb] obtain B where B: "b = of_int B * 2 powi ?e" ..
  have "a - b = of_int (A - B) * 2 powi ?e"
    using A B by (simp add: algebra_simps)
  then have d: "(a - b) / 2 powi ?e = of_int (A - B)" by (simp add: divide_eq_eq)
  have "rne (a - b) = of_int (round_even ((a - b) / 2 powi ?e)) * 2 powi ?e" by (simp add: rne_def)
  also have "\<dots> = of_int (A - B) * 2 powi ?e" by (simp only: d round_even_int)
  also have "\<dots> = a - b" using d by (simp add: divide_eq_eq)
  finally show ?thesis .
qed

lemma fl_Fin_D: "fl x = Fin x \<Longrightarrow> rne x = x \<and> \<bar>x\<bar> \<le> flt_max"
  by (auto simp: fl_def Let_def split: if_splits)

lemma fl_diff_exact:
  assumes "fl x = Fin x" "fl y = Fin y" "x / 2 \<le> y" "y \<le> 2 * x"
  shows "fl (y - x) = Fin (y - x)"
proof -
  note x = fl_Fin_D [OF assms(1)] and y = fl_Fin_D [OF assms(2)]
  have x0: "0 \<le> x" using assms(3,4) by simp
  have a: "\<bar>y - x\<bar> \<le> \<bar>y\<bar>" "\<bar>y - x\<bar> \<le> \<bar>x\<bar>" using assms(3,4) x0 by simp_all
  have r: "rne (y - x) = y - x" using rne_diff_exact [OF conjunct1 [OF y] conjunct1 [OF x] a] .
  have "\<bar>y - x\<bar> \<le> flt_max" using a(2) x by simp
  then show ?thesis using r by (simp add: fl_def Let_def abs_le_iff) 
qed

lemma next_cell32_open:
  assumes "wf_state32 p m" "0 \<le> jj" "jj < ny p" "0 \<le> ii" "ii < nx p" "is_open p (obstacles32 m) jj ii"
  shows "next_cell32 p m jj ii =
    Some (relax32 p (streamed32 p (cells32 m) jj ii) (equilibrium32 (streamed32 p (cells32 m) jj ii)))"
proof -
  from stream_collide32_result [OF assms(1)] obtain st where
    st: "stream_collide32 p m = Some st"
    and c: "\<And>jj ii. 0 \<le> jj \<Longrightarrow> jj < ny p \<Longrightarrow> 0 \<le> ii \<Longrightarrow> ii < nx p \<Longrightarrow>
         cell_at32 (tmp_cells32 (mem32 st)) (row_index p jj ii) = cell_new32 p m jj ii"
    by blast
  show ?thesis
    using st c [OF assms(2-5)] assms(6) by (simp add: next_cell32_def cell_new32_def Let_def)
qed

lemma ones_ld: "local_density32 [Fin 1, Fin 1, Fin 1, Fin 1, Fin 1, Fin 1, Fin 1, Fin 1, Fin 1] = Fin 9"
  by (simp add: local_density32_def fl_eval)

lemma ones_u:
  "u_x32 [Fin 1, Fin 1, Fin 1, Fin 1, Fin 1, Fin 1, Fin 1, Fin 1, Fin 1] = Fin 0"
  "u_y32 [Fin 1, Fin 1, Fin 1, Fin 1, Fin 1, Fin 1, Fin 1, Fin 1, Fin 1] = Fin 0"
  by (simp_all add: u_x32_def u_y32_def sub32_def ones_ld) (simp_all add: fl_eval)

lemma rest_equ:
  "d_equ32 (Fin 9) (Fin 0) (Fin 0) =
    [Fin 4, Fin 1, Fin 1, Fin 1, Fin 1, Fin (1 / 4), Fin (1 / 4), Fin (1 / 4), Fin (1 / 4)]"
  "d_equ32 (Fin 2017) (Fin 0) (Fin 0) =
    [Fin (7343673 / 8192), Fin (7343673 / 32768), Fin (7343673 / 32768), Fin (7343673 / 32768),
     Fin (7343673 / 32768), Fin (7343673 / 131072), Fin (7343673 / 131072),
     Fin (7343673 / 131072), Fin (7343673 / 131072)]"
  by (simp_all add: d_equ32_def d_equ_dir32_def u_dir32_def u_sq32_def c_sp32_def sub32_def w_vals)
     (simp_all add: fl_eval)

lemma ones_equ:
  "equilibrium32 [Fin 1, Fin 1, Fin 1, Fin 1, Fin 1, Fin 1, Fin 1, Fin 1, Fin 1] =
    [Fin 4, Fin 1, Fin 1, Fin 1, Fin 1, Fin (1 / 4), Fin (1 / 4), Fin (1 / 4), Fin (1 / 4)]"
  by (simp add: equilibrium32_def ones_ld ones_u rest_equ)

lemma ex_round_ld:
  "local_density32 [Fin 11, Fin 1, Fin 1000, Fin 1, Fin 1000, Fin 1, Fin 1, Fin 1, Fin 1] = Fin 2017"
  by (simp add: local_density32_def fl_eval)

lemma ex_round_u:
  "u_x32 [Fin 11, Fin 1, Fin 1000, Fin 1, Fin 1000, Fin 1, Fin 1, Fin 1, Fin 1] = Fin 0"
  "u_y32 [Fin 11, Fin 1, Fin 1000, Fin 1, Fin 1000, Fin 1, Fin 1, Fin 1, Fin 1] = Fin 0"
  by (simp_all add: u_x32_def u_y32_def sub32_def ex_round_ld) (simp_all add: fl_eval)

lemma ex_round_equ:
  "equilibrium32 [Fin 11, Fin 1, Fin 1000, Fin 1, Fin 1000, Fin 1, Fin 1, Fin 1, Fin 1] =
    [Fin (7343673 / 8192), Fin (7343673 / 32768), Fin (7343673 / 32768), Fin (7343673 / 32768),
     Fin (7343673 / 32768), Fin (7343673 / 131072), Fin (7343673 / 131072),
     Fin (7343673 / 131072), Fin (7343673 / 131072)]"
  by (simp add: equilibrium32_def ex_round_ld ex_round_u rest_equ)

lemma ex_round_relax:
  "relax32 ex_param [Fin 11, Fin 1, Fin 1000, Fin 1, Fin 1000, Fin 1, Fin 1, Fin 1, Fin 1]
     [Fin (7343673 / 8192), Fin (7343673 / 32768), Fin (7343673 / 32768), Fin (7343673 / 32768),
      Fin (7343673 / 32768), Fin (7343673 / 131072), Fin (7343673 / 131072),
      Fin (7343673 / 131072), Fin (7343673 / 131072)] =
    [Fin (7343673 / 8192), Fin (7343673 / 32768), Fin (917959 / 4096), Fin (7343673 / 32768),
     Fin (917959 / 4096), Fin (7343673 / 131072), Fin (7343673 / 131072),
     Fin (7343673 / 131072), Fin (7343673 / 131072)]"
  by (simp add: relax32_def relax_dir32_def sub32_def ex_param_def) (simp add: fl_eval)

lemma ex_round_streamed:
  "streamed32 ex_param (cells32 ex_round32) 0 0 =
     [Fin 11, Fin 1, Fin 1000, Fin 1, Fin 1000, Fin 1, Fin 1, Fin 1, Fin 1]"
  by (simp add: streamed32_def speed32_def e_x_def e_y_def ex_param_def ex_round32_def)

lemma ex_round_wf: "wf_state32 ex_param ex_round32"
  by (simp add: wf_state32_def wf_grid32_def ex_param_def ex_round32_def const_grid32_def)

lemma ex_open32_wf: "wf_state32 ex_param ex_open32"
  by (simp add: wf_state32_def wf_grid32_def ex_param_def ex_open32_def const_grid32_def)

lemma ex_open32_streamed:
  "streamed32 ex_param (cells32 ex_open32) 0 0 = [Fin 1, Fin 1, Fin 1, Fin 1, Fin 1, Fin 1, Fin 1, Fin 1, Fin 1]"
  "streamed32 ex_param (cells32 ex_open32) 1 0 = [Fin 1, Fin 1, Fin 1, Fin 1, Fin 1, Fin 1, Fin 1, Fin 1, Fin 1]"
  by (simp_all add: streamed32_def speed32_def e_x_def e_y_def ex_param_def ex_open32_def const_grid32_def)

subsection \<open>The binary32 kernel: bounds on the velocity\<close>

lemma rne_fix:
  "rne 1 = 1" "rne 32 = 32" "rne 1024 = 1024" "rne 2048 = 2048" "rne 46 = 46"
  "rne 1099511627776 = 1099511627776" "rne (1099511627776 + 46) = 1099511627776"
  by (simp_all add: rne_def ulp_exp_def round_even_def bexp_numeral)

lemma fl_Fin_rne: "fl x = Fin y \<Longrightarrow> rne y = y"
  using fl_idem [of x y] by (auto simp: fl_def Let_def split: if_splits)

lemma bounded32_D: "bounded32 v \<Longrightarrow> \<exists>x. v = Fin x \<and> 0 \<le> x \<and> x \<le> 2 ^ 100 \<and> rne x = x"
  by (cases v) (auto simp: bounded32_def fl_def Let_def split: if_splits)

lemma fl_between:
  assumes "lo \<le> x" "x \<le> hi" "rne lo = lo" "rne hi = hi" "- flt_max \<le> lo" "hi \<le> flt_max"
  shows "\<exists>y. fl x = Fin y \<and> lo \<le> y \<and> y \<le> hi"
proof -
  have "lo \<le> rne x" using rne_mono [OF assms(1)] assms(3) by simp
  moreover have "rne x \<le> hi" using rne_mono [OF assms(2)] assms(4) by simp
  ultimately show ?thesis using assms(5,6) by (simp add: fl_def Let_def)
qed

lemma fl_abs_twice:
  assumes "2 * \<bar>x\<bar> \<le> flt_max"
  shows "\<exists>y. fl x = Fin y \<and> \<bar>y\<bar> \<le> 2 * \<bar>x\<bar>"
proof -
  have "\<bar>rne x\<bar> \<le> 2 * \<bar>x\<bar>"
  proof (cases "0 \<le> x")
    case True
    then show ?thesis using rne_nonneg [of x] rne_le_twice [of x] by simp
  next
    case False
    then have "0 \<le> rne (- x)" "rne (- x) \<le> 2 * (- x)"
      using rne_nonneg [of "- x"] rne_le_twice [of "- x"] by simp_all
    then show ?thesis using False by (simp add: rne_minus)
  qed
  then show ?thesis using assms by (simp add: fl_def Let_def) linarith
qed

lemma add32_nonneg:
  assumes "0 \<le> a" "a \<le> A" "0 \<le> b" "b \<le> A" "A \<le> 2 ^ 125"
  shows "\<exists>y. add32 (Fin a) (Fin b) = Fin y \<and> 0 \<le> y \<and> y \<le> 4 * A \<and> rne a \<le> y \<and> rne b \<le> y \<and> rne y = y"
proof -
  have 0: "0 \<le> rne (a + b)" using assms by (intro rne_nonneg) simp
  have "rne (a + b) \<le> 2 * (a + b)" using assms by (intro rne_le_twice) simp
  then have 2: "rne (a + b) \<le> 4 * A" using assms(2,4) by simp
  have "4 * A \<le> flt_max" using assms(5) by (simp add: flt_max_def)
  then have 3: "rne (a + b) \<le> flt_max" using 2 by linarith
  have 4: "rne a \<le> rne (a + b)" "rne b \<le> rne (a + b)" using assms by (auto intro!: rne_mono)
  have fm: "0 \<le> flt_max" by (simp add: flt_max_def)
  have e: "fl (a + b) = Fin (rne (a + b))" using 0 3 fm by (simp add: fl_def Let_def)
  show ?thesis using 0 2 4 e fl_Fin_rne [OF e] by simp
qed

lemma foldl_add32_bounds:
  assumes "\<forall>v \<in> set vs. \<exists>x. v = Fin x \<and> 0 \<le> x \<and> x \<le> A \<and> rne x = x"
    "0 \<le> t" "t \<le> A" "rne t = t" "4 ^ length vs * A \<le> 2 ^ 127"
  shows "\<exists>y. foldl add32 (Fin t) vs = Fin y \<and> 0 \<le> y \<and> y \<le> 4 ^ length vs * A \<and> t \<le> y \<and>
     rne y = y \<and> (\<forall>v \<in> set vs. \<exists>x. v = Fin x \<and> 0 \<le> x \<and> x \<le> y)"
  using assms
proof (induction vs arbitrary: t A)
  case Nil
  then show ?case by simp
next
  case (Cons v vs)
  from Cons.prems(1) obtain x where x: "v = Fin x" "0 \<le> x" "x \<le> A" "rne x = x" by auto
  have A0: "0 \<le> A" using Cons.prems(2,3) by simp
  have "(1::real) \<le> 4 ^ length vs" by simp
  then have "4 * A * 1 \<le> 4 * A * 4 ^ length vs" using A0 by (intro mult_left_mono) simp_all
  then have A4: "4 * A \<le> 2 ^ 127" using Cons.prems(5) by (simp add: mult_ac)
  then have A125: "A \<le> 2 ^ 125" by simp
  from add32_nonneg [OF Cons.prems(2,3) x(2,3) A125]
  obtain t1 where t1: "add32 (Fin t) (Fin x) = Fin t1" "0 \<le> t1" "t1 \<le> 4 * A" "rne t \<le> t1"
    "rne x \<le> t1" "rne t1 = t1" by blast
  have el: "\<forall>v \<in> set vs. \<exists>x. v = Fin x \<and> 0 \<le> x \<and> x \<le> 4 * A \<and> rne x = x"
  proof
    fix w assume "w \<in> set vs"
    with Cons.prems(1) obtain z where "w = Fin z" "0 \<le> z" "z \<le> A" "rne z = z" by auto
    then show "\<exists>x. w = Fin x \<and> 0 \<le> x \<and> x \<le> 4 * A \<and> rne x = x" using A0 by auto
  qed
  have b: "4 ^ length vs * (4 * A) \<le> 2 ^ 127" using Cons.prems(5) by (simp add: mult_ac)
  from Cons.IH [OF el t1(2) order_refl [THEN order_trans, OF t1(3)] t1(6) b]
  obtain y where y: "foldl add32 (Fin t1) vs = Fin y" "0 \<le> y" "y \<le> 4 ^ length vs * (4 * A)"
    "t1 \<le> y" "rne y = y" "\<forall>v \<in> set vs. \<exists>x. v = Fin x \<and> 0 \<le> x \<and> x \<le> y"
    by blast
  have "foldl add32 (Fin t) (v # vs) = Fin y" using x(1) t1(1) y(1) by simp
  moreover have "t \<le> y" using t1(4) y(4) Cons.prems(4) by simp
  moreover have "x \<le> y" using t1(5) y(4) x(4) by simp
  moreover have "y \<le> 4 ^ length (v # vs) * A" using y(3) by (simp add: mult_ac)
  ultimately show ?case using y(2,5,6) x(1,2) by auto
qed

lemma local_density32_foldl:
  "local_density32 pr = foldl add32 (pr ! 0) [pr ! 1, pr ! 2, pr ! 3, pr ! 4, pr ! 5, pr ! 6, pr ! 7, pr ! 8]"
  by (simp add: local_density32_def)

lemma local_density32_bounds:
  assumes "\<And>d. d < 9 \<Longrightarrow> bounded32 (pr ! d)"
  shows "\<exists>l. local_density32 pr = Fin l \<and> 0 \<le> l \<and> l \<le> 2 ^ 116 \<and>
     (\<forall>d < 9. \<exists>x. pr ! d = Fin x \<and> 0 \<le> x \<and> x \<le> l \<and> rne x = x)"
proof -
  have b: "\<exists>x. pr ! d = Fin x \<and> 0 \<le> x \<and> x \<le> 2 ^ 100 \<and> rne x = x" if "d < 9" for d
    using bounded32_D [OF assms [OF that]] .
  from b [of 0] obtain x0 where x0: "pr ! 0 = Fin x0" "0 \<le> x0" "x0 \<le> 2 ^ 100" "rne x0 = x0" by auto
  let ?vs = "[pr ! 1, pr ! 2, pr ! 3, pr ! 4, pr ! 5, pr ! 6, pr ! 7, pr ! 8]"
  have el: "\<forall>v \<in> set ?vs. \<exists>x. v = Fin x \<and> 0 \<le> x \<and> x \<le> 2 ^ 100 \<and> rne x = x"
    using b [of 1] b [of 2] b [of 3] b [of 4] b [of 5] b [of 6] b [of 7] b [of 8] by simp
  have sz: "4 ^ length ?vs * (2 ^ 100 :: real) \<le> 2 ^ 127" by simp
  from foldl_add32_bounds [OF el x0(2,3,4) sz]
  obtain l where l: "foldl add32 (Fin x0) ?vs = Fin l" "0 \<le> l" "l \<le> 4 ^ length ?vs * 2 ^ 100"
    "x0 \<le> l" "\<forall>v \<in> set ?vs. \<exists>x. v = Fin x \<and> 0 \<le> x \<and> x \<le> l"
    by blast
  have ld: "local_density32 pr = Fin l" using l(1) x0(1) by (simp add: local_density32_foldl)
  have ub: "l \<le> 2 ^ 116" using l(3) by simp
  have "\<exists>x. pr ! d = Fin x \<and> 0 \<le> x \<and> x \<le> l \<and> rne x = x" if d: "d < 9" for d
  proof (cases "d = 0")
    case True
    then show ?thesis using x0 l(4) by simp
  next
    case False
    then have "pr ! d \<in> set ?vs" using less9_cases [OF d] by auto
    with l(5) obtain x where "pr ! d = Fin x" "0 \<le> x" "x \<le> l" by blast
    then show ?thesis using b [OF d] by auto
  qed
  then show ?thesis using ld l(2) ub by blast
qed

lemma momentum32_bound:
  assumes "0 \<le> a" "a \<le> l" "rne a = a" "0 \<le> b" "b \<le> l" "rne b = b" "0 \<le> c" "c \<le> l" "rne c = c"
    "l \<le> 2 ^ 116"
  shows "\<exists>y. add32 (add32 (Fin a) (Fin b)) (Fin c) = Fin y \<and> 0 \<le> y \<and> y \<le> 16 * l"
proof -
  have el: "\<forall>v \<in> set [Fin b, Fin c]. \<exists>x. v = Fin x \<and> 0 \<le> x \<and> x \<le> l \<and> rne x = x"
    using assms by simp
  have sz: "4 ^ length [Fin b, Fin c] * l \<le> 2 ^ 127" using assms(10) by simp
  from foldl_add32_bounds [OF el assms(1,2,3) sz] show ?thesis by auto
qed

lemma velocity32_bound:
  assumes "0 \<le> a" "a \<le> 16 * l" "0 \<le> b" "b \<le> 16 * l" "0 < l" "l \<le> 2 ^ 116"
  shows "\<exists>u. div32 (sub32 (Fin a) (Fin b)) (Fin l) = Fin u \<and> \<bar>u\<bar> \<le> 32"
proof -
  have ab: "\<bar>a - b\<bar> \<le> 16 * l" using assms by linarith
  have "2 * (16 * l) \<le> flt_max" using assms(6) by (simp add: flt_max_def)
  then have "2 * \<bar>a - b\<bar> \<le> flt_max" using ab by simp
  from fl_abs_twice [OF this] obtain n where n: "fl (a - b) = Fin n" "\<bar>n\<bar> \<le> 2 * \<bar>a - b\<bar>" by blast
  have nl: "\<bar>n\<bar> \<le> 32 * l" using n(2) ab by simp
  have q: "- 32 \<le> n / l" "n / l \<le> 32"
    using nl assms(5) by (simp_all add: le_divide_eq divide_le_eq)
  have m32: "rne (- 32) = - 32" using rne_minus [of 32] by (simp add: rne_fix)
  have fm: "- flt_max \<le> - 32" "32 \<le> flt_max" by (simp_all add: flt_max_def)
  from fl_between [OF q m32 rne_fix(2) fm] obtain u where u: "fl (n / l) = Fin u" "- 32 \<le> u" "u \<le> 32"
    by blast
  have "div32 (sub32 (Fin a) (Fin b)) (Fin l) = Fin u"
    using n(1) u(1) assms(5) by (simp add: sub32_def)
  then show ?thesis using u(2,3) by auto
qed

lemma square32_bound:
  assumes "\<bar>u\<bar> \<le> 32"
  shows "\<exists>q. mul32 (Fin u) (Fin u) = Fin q \<and> 0 \<le> q \<and> q \<le> 1024"
proof -
  have "u * u \<le> 32 * 32" using assms by (intro abs_le_square_iff [THEN iffD1, simplified power2_eq_square]) simp
  then have a: "0 \<le> u * u" "u * u \<le> 1024" by simp_all
  have fm: "- flt_max \<le> 0" "1024 \<le> flt_max" by (simp_all add: flt_max_def)
  from fl_between [OF a rne_0 rne_fix(3) fm] show ?thesis by simp
qed

lemma cell_speed32_bound:
  assumes "\<And>d. d < 9 \<Longrightarrow> bounded32 (pr ! d)" "local_density32 pr \<noteq> Fin 0"
  shows "\<exists>s. cell_speed32 pr = Fin s \<and> 0 \<le> s \<and> s \<le> 46"
proof -
  from local_density32_bounds [OF assms(1)] obtain l where
    l: "local_density32 pr = Fin l" "0 \<le> l" "l \<le> 2 ^ 116"
    and el: "\<And>d. d < 9 \<Longrightarrow> \<exists>x. pr ! d = Fin x \<and> 0 \<le> x \<and> x \<le> l \<and> rne x = x"
    by blast
  have l0: "0 < l" using l(1,2) assms(2) by auto
  from el [of 1] obtain x1 where x1: "pr ! 1 = Fin x1" "0 \<le> x1" "x1 \<le> l" "rne x1 = x1" by auto
  from el [of 2] obtain x2 where x2: "pr ! 2 = Fin x2" "0 \<le> x2" "x2 \<le> l" "rne x2 = x2" by auto
  from el [of 3] obtain x3 where x3: "pr ! 3 = Fin x3" "0 \<le> x3" "x3 \<le> l" "rne x3 = x3" by auto
  from el [of 4] obtain x4 where x4: "pr ! 4 = Fin x4" "0 \<le> x4" "x4 \<le> l" "rne x4 = x4" by auto
  from el [of 5] obtain x5 where x5: "pr ! 5 = Fin x5" "0 \<le> x5" "x5 \<le> l" "rne x5 = x5" by auto
  from el [of 6] obtain x6 where x6: "pr ! 6 = Fin x6" "0 \<le> x6" "x6 \<le> l" "rne x6 = x6" by auto
  from el [of 7] obtain x7 where x7: "pr ! 7 = Fin x7" "0 \<le> x7" "x7 \<le> l" "rne x7 = x7" by auto
  from el [of 8] obtain x8 where x8: "pr ! 8 = Fin x8" "0 \<le> x8" "x8 \<le> l" "rne x8 = x8" by auto
  from momentum32_bound [OF x1(2-4) x5(2-4) x8(2-4) l(3)] obtain a where
    a: "add32 (add32 (Fin x1) (Fin x5)) (Fin x8) = Fin a" "0 \<le> a" "a \<le> 16 * l" by blast
  from momentum32_bound [OF x3(2-4) x6(2-4) x7(2-4) l(3)] obtain b where
    b: "add32 (add32 (Fin x3) (Fin x6)) (Fin x7) = Fin b" "0 \<le> b" "b \<le> 16 * l" by blast
  from momentum32_bound [OF x2(2-4) x5(2-4) x6(2-4) l(3)] obtain c where
    c: "add32 (add32 (Fin x2) (Fin x5)) (Fin x6) = Fin c" "0 \<le> c" "c \<le> 16 * l" by blast
  from momentum32_bound [OF x4(2-4) x7(2-4) x8(2-4) l(3)] obtain d where
    d: "add32 (add32 (Fin x4) (Fin x7)) (Fin x8) = Fin d" "0 \<le> d" "d \<le> 16 * l" by blast
  from velocity32_bound [OF a(2,3) b(2,3) l0 l(3)] obtain ux where
    ux: "div32 (sub32 (Fin a) (Fin b)) (Fin l) = Fin ux" "\<bar>ux\<bar> \<le> 32" by blast
  from velocity32_bound [OF c(2,3) d(2,3) l0 l(3)] obtain uy where
    uy: "div32 (sub32 (Fin c) (Fin d)) (Fin l) = Fin uy" "\<bar>uy\<bar> \<le> 32" by blast
  have ux': "u_x32 pr = Fin ux"
    unfolding u_x32_def l(1) x1(1) x5(1) x8(1) x3(1) x6(1) x7(1) a(1) b(1) by (rule ux(1))
  have uy': "u_y32 pr = Fin uy"
    unfolding u_y32_def l(1) x2(1) x5(1) x6(1) x4(1) x7(1) x8(1) c(1) d(1) by (rule uy(1))
  from square32_bound [OF ux(2)] obtain q1 where
    q1: "mul32 (Fin ux) (Fin ux) = Fin q1" "0 \<le> q1" "q1 \<le> 1024" by blast
  from square32_bound [OF uy(2)] obtain q2 where
    q2: "mul32 (Fin uy) (Fin uy) = Fin q2" "0 \<le> q2" "q2 \<le> 1024" by blast
  have s: "0 \<le> q1 + q2" "q1 + q2 \<le> 2048" using q1 q2 by simp_all
  have fm: "- flt_max \<le> 0" "2048 \<le> flt_max" "46 \<le> flt_max" by (simp_all add: flt_max_def)
  from fl_between [OF s rne_0 rne_fix(4) fm(1,2)] obtain q where
    q: "fl (q1 + q2) = Fin q" "0 \<le> q" "q \<le> 2048" by blast
  have usq: "u_sq32 (Fin ux) (Fin uy) = Fin q" using q1(1) q2(1) q(1) by (simp add: u_sq32_def)
  have "sqrt q \<le> sqrt (46 ^ 2)" using q(3) by (intro real_sqrt_le_mono) simp
  then have r: "0 \<le> sqrt q" "sqrt q \<le> 46" using q(2) by simp_all
  from fl_between [OF r rne_0 rne_fix(5) fm(1,3)] obtain s where
    s: "fl (sqrt q) = Fin s" "0 \<le> s" "s \<le> 46" by blast
  have "cell_speed32 pr = Fin s" using s(1) q(2) by (simp add: cell_speed32_def ux' uy' usq)
  then show ?thesis using s(2,3) by blast
qed

lemma foldl_speed32_bounds:
  assumes "\<forall>v \<in> set vs. \<exists>s. v = Fin s \<and> 0 \<le> s \<and> s \<le> 46" "0 \<le> t" "t \<le> 1099511627776"
  shows "\<exists>y. foldl add32 (Fin t) vs = Fin y \<and> 0 \<le> y \<and> y \<le> 1099511627776"
  using assms
proof (induction vs arbitrary: t)
  case Nil
  then show ?case by simp
next
  case (Cons v vs)
  from Cons.prems(1) obtain s where s: "v = Fin s" "0 \<le> s" "s \<le> 46" by auto
  have a: "0 \<le> t + s" "t + s \<le> 1099511627776 + 46" using s Cons.prems by simp_all
  have fm: "- flt_max \<le> 0" "1099511627776 \<le> flt_max" by (simp_all add: flt_max_def)
  have "rne (t + s) \<le> rne (1099511627776 + 46)" using a(2) by (rule rne_mono)
  then have u: "rne (t + s) \<le> 1099511627776" by (simp only: rne_fix)
  have l: "0 \<le> rne (t + s)" using a(1) by (rule rne_nonneg)
  have e: "fl (t + s) = Fin (rne (t + s))" using u l fm by (simp add: fl_def Let_def)
  have el: "\<forall>v \<in> set vs. \<exists>s. v = Fin s \<and> 0 \<le> s \<and> s \<le> 46" using Cons.prems(1) by simp
  from Cons.IH [OF el l u] show ?case using s(1) e by simp
qed

lemma streamed32_bounded:
  assumes "wf_grid32 p c" "grid_bounded32 c" "0 < nx p" "0 < ny p" "d < 9"
  shows "bounded32 (streamed32 p c jj ii ! d)"
proof -
  note len = wf_grid32_len [OF assms(1)]
  let ?k = "(ii - e_x d) mod nx p + ((jj - e_y d) mod ny p) * nx p"
  have k: "0 \<le> ?k" "?k < nx p * ny p"
    using idx_bounds [of "(ii - e_x d) mod nx p" "nx p" "(jj - e_y d) mod ny p" "ny p"] assms(3,4)
    by simp_all
  have nth: "bounded32 (xs ! nat ?k)" if "int (length xs) = nx p * ny p" "list_all bounded32 xs"
    for xs
  proof -
    have "nat ?k < length xs" using k that(1) by (simp add: nat_less_iff)
    then show ?thesis using that(2) by (simp add: list_all_length)
  qed
  have la: "list_all bounded32 (s0_32 c)" "list_all bounded32 (s1_32 c)" "list_all bounded32 (s2_32 c)"
    "list_all bounded32 (s3_32 c)" "list_all bounded32 (s4_32 c)" "list_all bounded32 (s5_32 c)"
    "list_all bounded32 (s6_32 c)" "list_all bounded32 (s7_32 c)" "list_all bounded32 (s8_32 c)"
    using assms(2) by (simp_all add: grid_bounded32_def)
  have "bounded32 (speed32 c d ! nat ?k)"
    using less9_cases [OF assms(5)] nth [OF len(1) la(1)] nth [OF len(2) la(2)] nth [OF len(3) la(3)]
      nth [OF len(4) la(4)] nth [OF len(5) la(5)] nth [OF len(6) la(6)] nth [OF len(7) la(7)]
      nth [OF len(8) la(8)] nth [OF len(9) la(9)]
    by (auto simp: speed32_def)
  moreover have "streamed32 p c jj ii ! d = speed32 c d ! nat ?k"
    using less9_cases [OF assms(5)] by (auto simp: streamed32_def)
  ultimately show ?thesis by simp
qed

lemma average32_nonneg:
  assumes "0 \<le> t" "t \<le> 1099511627776" "1 \<le> n"
  shows "\<exists>v. div32 (Fin t) (fl (real_of_int n)) = Fin v \<and> 0 \<le> v"
proof -
  have "rne 1 \<le> rne (real_of_int n)" using assms(3) by (intro rne_mono) simp
  then have r: "1 \<le> rne (real_of_int n)" by (simp only: rne_fix)
  have fm: "- flt_max \<le> 0" "1099511627776 \<le> flt_max" by (simp_all add: flt_max_def)
  show ?thesis
  proof (cases "flt_max < rne (real_of_int n)")
    case True
    then show ?thesis by (simp add: fl_def Let_def)
  next
    case False
    then have e: "fl (real_of_int n) = Fin (rne (real_of_int n))"
      using r fm by (simp add: fl_def Let_def)
    let ?r = "rne (real_of_int n)"
    have q: "0 \<le> t / ?r" "t / ?r \<le> 1099511627776"
      using assms(1,2) r by (simp_all add: divide_le_eq)
    from fl_between [OF q rne_0 rne_fix(6) fm] obtain v where
      v: "fl (t / ?r) = Fin v" "0 \<le> v" by blast
    then show ?thesis using e r by simp
  qed
qed

subsection \<open>The binary32 kernel: the returned average\<close>

lemma timestep32_result:
  assumes "wf_state32 p m" "2 \<le> ny p" "accelerate_flow32 p m = Some m1"
  shows "map_option snd (timestep32 p m) =
    Some (div32 (foldl add32 (Fin 0)
             (map (\<lambda>(jj, ii). cell_speed32 (streamed32 p (cells32 m1) jj ii))
                  (open_cells_from p (obstacles32 m) 0)))
          (fl (real (length (open_cells_from p (obstacles32 m) 0)))))"
proof -
  from accelerate_flow32_wf [OF assms(1,2)] assms(3)
  have m1: "wf_state32 p m1" "obstacles32 m1 = obstacles32 m" by auto
  from stream_collide32_result [OF m1(1)] obtain st where
    st: "stream_collide32 p m1 = Some st"
      "tot_cells32 st = int (length (open_cells_from p (obstacles32 m1) 0))"
      "tot_u32 st = foldl add32 (Fin 0)
          (map (\<lambda>(jj, ii). cell_speed32 (streamed32 p (cells32 m1) jj ii))
               (open_cells_from p (obstacles32 m1) 0))"
    by blast
  show ?thesis using assms(3) st by (simp add: timestep32_def m1(2))
qed

lemma fl_ex_vals: "fl 1 = Fin 1" "fl 0 = Fin 0" "fl 2 = Fin 2"
  "fl 300000000549775575777803994281145270272 = Fin 300000000549775575777803994281145270272"
  by (simp_all add: fl_eval)

lemma ex_open32_accelerate: "accelerate_flow32 ex_param ex_open32 = Some ex_open32"
  by (simp add: accelerate_flow32_def accelerate_loop32.simps accelerate_cell32_def ex_param_def
      ex_open32_def const_grid32_def rd_def wr_def sub32_def fl_eval)

lemma ex_big32_accelerate: "accelerate_flow32 ex_param ex_big32 = Some ex_big32"
  by (simp add: accelerate_flow32_def accelerate_loop32.simps accelerate_cell32_def ex_param_def
      ex_big32_def const_grid32_def rd_def wr_def sub32_def fl_eval)

lemma ex_open_cells:
  "open_cells_from ex_param [0, 0] 0 = [(0, 0), (1, 0)]"
  "open_cells_from ex_param [1, 1] 0 = []"
  by (simp_all add: open_cells_from_def open_cols_def is_open_def row_index_def upto.simps ex_param_def)

lemma ex_big32_wf: "wf_state32 ex_param ex_big32"
  by (simp add: wf_state32_def wf_grid32_def ex_param_def ex_big32_def const_grid32_def)

lemma ex_big32_streamed:
  "streamed32 ex_param (cells32 ex_big32) 0 0 =
     [Fin 1, Fin 300000000549775575777803994281145270272, Fin 1, Fin 1, Fin 1,
      Fin 300000000549775575777803994281145270272, Fin 1, Fin 1, Fin 1]"
  "streamed32 ex_param (cells32 ex_big32) 1 0 =
     [Fin 1, Fin 300000000549775575777803994281145270272, Fin 1, Fin 1, Fin 1,
      Fin 300000000549775575777803994281145270272, Fin 1, Fin 1, Fin 1]"
  by (simp_all add: streamed32_def speed32_def e_x_def e_y_def ex_param_def ex_big32_def const_grid32_def)

lemma ex_big32_density:
  "local_density32 [Fin 1, Fin 300000000549775575777803994281145270272, Fin 1, Fin 1, Fin 1,
      Fin 300000000549775575777803994281145270272, Fin 1, Fin 1, Fin 1] = PInf"
  by (simp add: local_density32_def fl_eval)

lemma ex_big32_speed:
  "cell_speed32 [Fin 1, Fin 300000000549775575777803994281145270272, Fin 1, Fin 1, Fin 1,
      Fin 300000000549775575777803994281145270272, Fin 1, Fin 1, Fin 1] = NaN"
  by (simp add: cell_speed32_def u_x32_def u_y32_def u_sq32_def ex_big32_density sub32_def)
     (simp add: fl_eval)

text \<open>Overflow. On the grid of one column and two open rows whose values in directions 1
  and 5 are \<open>300000000549775575777803994281145270272\<close> (the binary32 number nearest to
  \<open>3e38\<close>) and 1 elsewhere, the local density of both cells is \<open>+infinity\<close>, not zero,
  \<open>u_x\<close> is \<open>infinity / infinity\<close>, and \<open>timestep\<close> returns NaN.\<close>

lemma timestep32_overflow:
  "local_density32 (streamed32 ex_param (cells32 ex_big32) 0 0) = PInf \<and>
   local_density32 (streamed32 ex_param (cells32 ex_big32) 1 0) = PInf \<and>
   map_option snd (timestep32 ex_param ex_big32) = Some NaN"
proof -
  have ny: "2 \<le> ny ex_param" by (simp add: ex_param_def)
  have ob: "obstacles32 ex_big32 = [0, 0]" by (simp add: ex_big32_def)
  show ?thesis
    using timestep32_result [OF ex_big32_wf ny ex_big32_accelerate]
    by (simp add: ob ex_open_cells ex_big32_streamed ex_big32_density ex_big32_speed)
qed

lemma ex_signs32_wf: "wf_state32 ex_param ex_signs32"
  by (simp add: wf_state32_def wf_grid32_def ex_param_def ex_signs32_def const_grid32_def)

lemma ex_signs32_accelerate: "accelerate_flow32 ex_param ex_signs32 = Some ex_signs32"
  by (simp add: accelerate_flow32_def accelerate_loop32.simps accelerate_cell32_def ex_param_def
      ex_signs32_def const_grid32_def rd_def wr_def sub32_def fl_eval)

lemma ex_signs32_streamed:
  "streamed32 ex_param (cells32 ex_signs32) 0 0 =
     [Fin 0, Fin 18446744073709551616, Fin 0, Fin (- 18446744073709551616), Fin 1,
      Fin 0, Fin 0, Fin 0, Fin 0]"
  "streamed32 ex_param (cells32 ex_signs32) 1 0 =
     [Fin 0, Fin 18446744073709551616, Fin 0, Fin (- 18446744073709551616), Fin 1,
      Fin 0, Fin 0, Fin 0, Fin 0]"
  by (simp_all add: streamed32_def speed32_def e_x_def e_y_def ex_param_def ex_signs32_def const_grid32_def)

lemma ex_signs32_density:
  "local_density32 [Fin 0, Fin 18446744073709551616, Fin 0, Fin (- 18446744073709551616), Fin 1,
      Fin 0, Fin 0, Fin 0, Fin 0] = Fin 1"
  by (simp add: local_density32_def fl_eval)

lemma ex_signs32_speed:
  "cell_speed32 [Fin 0, Fin 18446744073709551616, Fin 0, Fin (- 18446744073709551616), Fin 1,
      Fin 0, Fin 0, Fin 0, Fin 0] = PInf"
  by (simp add: cell_speed32_def u_x32_def u_y32_def u_sq32_def ex_signs32_density sub32_def)
     (simp add: fl_eval)

text \<open>Values of both signs. On the grid of one column and two open rows whose values are
  \<open>2^64\<close> in direction 1, \<open>-2^64\<close> in direction 3, 1 in direction 4 and 0 elsewhere, the
  local density of both cells is 1, \<open>u_x\<close> is \<open>2^65\<close>, its square overflows, and \<open>timestep\<close>
  returns \<open>+infinity\<close>.\<close>

lemma timestep32_mixed_signs:
  "local_density32 (streamed32 ex_param (cells32 ex_signs32) 0 0) = Fin 1 \<and>
   local_density32 (streamed32 ex_param (cells32 ex_signs32) 1 0) = Fin 1 \<and>
   map_option snd (timestep32 ex_param ex_signs32) = Some PInf"
proof -
  have ny: "2 \<le> ny ex_param" by (simp add: ex_param_def)
  have ob: "obstacles32 ex_signs32 = [0, 0]" by (simp add: ex_signs32_def)
  show ?thesis
    using timestep32_result [OF ex_signs32_wf ny ex_signs32_accelerate]
    by (simp add: ob ex_open_cells ex_signs32_streamed ex_signs32_density ex_signs32_speed)
       (simp add: fl_eval)
qed

section \<open>The claims\<close>

text \<open>C1, at a failing input. One stream-collide pass over \<open>ex_bounce\<close>: the values streamed
  into the obstacle cell \<open>(0, 0)\<close> are \<open>[10, 2, 5, 3, 6, 7, 8, 9, 11]\<close>; the next grid
  receives the eight moving directions swapped with their opposites, and the pass counts
  one open cell (the other one) with velocity sum 0; but the rest value of the next grid is
  the 7 that the scratch grid held before the pass, not the streamed rest value 10: the
  obstacle branch has no assignment to \<open>s0\<close>.\<close>

theorem C1_obstacle_rest_stale:
  "propagate_cell ex_param (cells ex_bounce) 0 0 = Some [10, 2, 5, 3, 6, 7, 8, 9, 11] \<and>
   cell_at (tmp_cells ex_bounce) 0 = [7, 7, 7, 7, 7, 7, 7, 7, 7] \<and>
   map_option (\<lambda>st. (cell_at (tmp_cells (mem st)) 0, tot_cells st, tot_u st))
     (stream_collide ex_param ex_bounce) = Some ([7, 3, 6, 2, 5, 9, 11, 7, 8], 1, 0)"
  by (simp add: ex_param_def ex_bounce_def const_grid_def rd_def wr_def cell_at_def
     stream_collide_def timestep_jj.simps timestep_ii.simps timestep_cell_def propagate_cell_def
     rebound_cell_def collision_cell_def u_x_def u_y_def fdiv_def local_density_def relax_def d_equ_def
     u_dir_def u_sq_def c_sp_def w0_def w1_def w2_def Let_def)

text \<open>C2 (as amended). In a well-formed state with at least two rows, \<open>accelerate_flow\<close>
  returns, and for the cell of column \<open>ii\<close> in row \<open>ny - 2\<close>: if the cell is not an obstacle
  and each of the W, NW and SW values stays strictly positive after the subtraction of
  \<open>w1 = density * accel / 9\<close>, \<open>w2 = density * accel / 36\<close>, \<open>w2\<close>, then E, NE, SE have
  grown and W, NW, SW have shrunk by these amounts and the three other values are as
  before; otherwise all nine values of the cell are as before.\<close>

theorem C2_accelerate_guard:
  assumes "wf_state p m" "2 \<le> ny p" "0 \<le> ii" "ii < nx p" "k = row_index p (ny p - 2) ii"
  shows "\<exists>m'. accelerate_flow p m = Some m' \<and>
      cell_at (cells m') k =
        (if obstacles m ! k = 0 \<and> s3 (cells m) ! k - accel_w1 p > 0 \<and>
            s6 (cells m) ! k - accel_w2 p > 0 \<and> s7 (cells m) ! k - accel_w2 p > 0
         then [s0 (cells m) ! k, s1 (cells m) ! k + accel_w1 p, s2 (cells m) ! k,
               s3 (cells m) ! k - accel_w1 p, s4 (cells m) ! k, s5 (cells m) ! k + accel_w2 p,
               s6 (cells m) ! k - accel_w2 p, s7 (cells m) ! k - accel_w2 p,
               s8 (cells m) ! k + accel_w2 p]
         else cell_at (cells m) k)"
proof -
  have kb: "int k < nx p * ny p"
    using idx_bounds [of ii "nx p" "ny p - 2" "ny p"] assms by (simp add: row_index_def)
  have wf: "wf_grid p (cells m)" using assms(1) by (simp add: wf_state_def)
  from accelerate_flow_result [OF assms(1,2)] assms(3,4,5)
  obtain m' where "accelerate_flow p m = Some m'"
    "cell_at (cells m') k = (if accel_guard p m k then cell_at (accel_apply p (cells m) k) k
            else cell_at (cells m) k)"
    by blast
  then show ?thesis
    using cell_at_accel_apply [OF wf kb, of k] by (simp add: accel_guard_def)
qed

theorem C2_accelerate_guard_witness:
  "wf_state ex_param_half ex_open \<and> row_index ex_param_half (ny ex_param_half - 2) 0 = 0 \<and>
   (\<exists>m'. accelerate_flow ex_param_half ex_open = Some m' \<and>
      cell_at (cells m') 0 = [1, 3 / 2, 1, 1 / 2, 1, 9 / 8, 7 / 8, 7 / 8, 9 / 8])"
proof -
  have wf: "wf_state ex_param_half ex_open"
    by (simp add: wf_state_def wf_grid_def ex_param_half_def ex_open_def const_grid_def)
  have r: "2 \<le> ny ex_param_half" "0 \<le> (0::int)" "0 < nx ex_param_half"
     "0 = row_index ex_param_half (ny ex_param_half - 2) 0"
    by (simp_all add: ex_param_half_def row_index_def)
  show ?thesis
    using C2_accelerate_guard [OF wf r] wf r(4)
    by (simp add: accel_w1_def accel_w2_def ex_param_half_def ex_open_def const_grid_def cell_at_def)
qed

text \<open>C2 as stated fails where a subtraction gives exactly zero: with \<open>w1 = 1\<close> and a W value
  of 1 in an open cell of row \<open>ny - 2\<close>, no value would become negative, yet the state is
  returned unchanged.\<close>

theorem C2_counterexample:
  "obstacles ex_open ! 0 = 0 \<and> accel_guard_spec ex_param_accel ex_open 0 \<and>
   accel_w1 ex_param_accel = 1 \<and>
   accelerate_flow ex_param_accel ex_open = Some ex_open"
  by (simp add: accel_guard_spec_def accel_w1_def accel_w2_def accelerate_flow_def
      accelerate_loop.simps accelerate_cell_def ex_param_accel_def ex_open_def const_grid_def
      rd_def wr_def)

text \<open>C3, at a failing input. With \<open>accel = 0\<close>, \<open>total_density\<close> of the current grid of
  \<open>ex_bounce\<close> is 70 before one iteration of \<open>main\<close> and 67 after it: the rest value 10 of
  the obstacle cell is replaced by the 7 left in the scratch grid.\<close>

theorem C3_mass_not_conserved:
  "accel ex_param = 0 \<and> total_density ex_param (cells ex_bounce) = Some 70 \<and>
   (main_iter ex_param ex_bounce \<bind> (\<lambda>(m', av). total_density ex_param (cells m'))) = Some 67"
  by (simp add: ex_param_def ex_bounce_def const_grid_def rd_def wr_def
     main_iter_def timestep_def accelerate_flow_def accelerate_loop.simps accelerate_cell_def
     total_density_def total_density_jj.simps total_density_ii.simps total_density_cell_def
     stream_collide_def timestep_jj.simps timestep_ii.simps timestep_cell_def propagate_cell_def
     rebound_cell_def collision_cell_def u_x_def u_y_def fdiv_def local_density_def relax_def d_equ_def
     u_dir_def u_sq_def c_sp_def w0_def w1_def w2_def Let_def)

text \<open>C4. For every direction \<open>d\<close>, the equilibrium value \<open>d_equ[d]\<close> that the collide step
  computes from the local density and the velocity \<open>(ux, uy)\<close> is
  \<open>weight(d) * local_density * (1 + 3 * e_d + 4.5 * e_d\<^sup>2 - 1.5 * u_sq)\<close>, where \<open>e_d\<close> is the
  component of \<open>(ux, uy)\<close> along the unit offset of \<open>d\<close> (0 for the rest direction) and the
  weight is 4/9 for rest, 1/9 for the axis directions and 1/36 for the diagonals.\<close>

theorem C4_equilibrium:
  "d_equ ld ux uy = map (\<lambda>d. equilibrium_spec d ld ux uy) [0, 1, 2, 3, 4, 5, 6, 7, 8]"
  by (simp add: d_equ_def equilibrium_spec_def weight_def e_d_def e_x_def e_y_def u_dir_def
      u_sq_def c_sp_def w0_def w1_def w2_def power2_eq_square) (simp add: algebra_simps)

text \<open>C5. Streaming is periodic on both axes. In a well-formed grid the nine values
  read for cell \<open>(ii, jj)\<close> are, for each direction, the value of that direction at the
  neighbour found by subtracting the direction's unit offset, with the indices wrapped
  modulo \<open>nx\<close> and \<open>ny\<close>. In particular the value that enters cell \<open>(0, jj)\<close> from its
  western side (the east-moving value, \<open>prop1\<close>) is the east value of cell \<open>(nx - 1, jj)\<close>,
  and the value that enters cell \<open>(ii, 0)\<close> from its southern side (\<open>prop2\<close>) is the
  north value of cell \<open>(ii, ny - 1)\<close>. The streamed values do not depend on the obstacle
  mask.\<close>

theorem C5_periodic_streaming:
  assumes "wf_grid p c" "0 \<le> ii" "ii < nx p" "0 \<le> jj" "jj < ny p"
  shows "\<exists>pr. propagate_cell p c jj ii = Some pr \<and> pr = streamed p c jj ii \<and>
      (ii = 0 \<longrightarrow> pr ! 1 = s1 c ! row_index p jj (nx p - 1)) \<and>
      (jj = 0 \<longrightarrow> pr ! 2 = s2 c ! row_index p (ny p - 1) ii)"
proof -
  have x: "(- 1) mod nx p = nx p - 1" and y: "(- 1) mod ny p = ny p - 1"
    using assms by (simp_all add: zmod_minus1)
  have "ii = 0 \<longrightarrow> streamed p c jj ii ! 1 = s1 c ! row_index p jj (nx p - 1)"
    using assms by (simp add: streamed_def speed_def e_x_def e_y_def row_index_def x)
  moreover have "jj = 0 \<longrightarrow> streamed p c jj ii ! 2 = s2 c ! row_index p (ny p - 1) ii"
    using assms by (simp add: streamed_def speed_def e_x_def e_y_def row_index_def y)
  ultimately show ?thesis
    using propagate_cell_streamed [OF assms] by simp
qed

theorem C5_periodic_streaming_witness:
  "wf_grid ex_param3 ex_grid3 \<and>
   propagate_cell ex_param3 ex_grid3 0 0 = Some [0, 12, 23, 31, 43, 55, 64, 74, 85] \<and>
   s1 ex_grid3 ! row_index ex_param3 0 (nx ex_param3 - 1) = 12 \<and>
   s2 ex_grid3 ! row_index ex_param3 (ny ex_param3 - 1) 0 = 23"
proof -
  have wf: "wf_grid ex_param3 ex_grid3"
    by (simp add: wf_grid_def ex_param3_def ex_grid3_def)
  have r: "0 \<le> (0::int)" "(0::int) < nx ex_param3" "(0::int) < ny ex_param3"
    by (simp_all add: ex_param3_def)
  show ?thesis
    using C5_periodic_streaming [OF wf r(1) r(2) r(1) r(3)] wf
    by (simp add: streamed_def speed_def e_x_def e_y_def row_index_def ex_param3_def ex_grid3_def)
qed

text \<open>C6 (as amended). In binary32 arithmetic, when \<open>omega = 1\<close>, a stream-collide pass over
  a well-formed state returns, and the nine values it writes to the next grid for an open
  cell are \<open>streamed(d) + omega * (equilibrium(d) - streamed(d))\<close>, each of the three
  operations rounded to nearest (\<open>relax32\<close>). The value written for direction \<open>d\<close> is
  \<open>equilibrium(d)\<close> itself whenever \<open>streamed(d)\<close> and \<open>equilibrium(d)\<close> are finite and their
  difference \<open>equilibrium(d) - streamed(d)\<close> is a binary32 number, that is, whenever the
  subtraction is exact; and it is exact whenever \<open>streamed(d)\<close> is a binary32 number and
  \<open>equilibrium(d)\<close> lies between half of it and twice it. (In exact arithmetic the three
  operations cancel for all values: \<open>relax_omega1\<close>.)\<close>

theorem C6_omega_one_exact:
  assumes "wf_state32 p m" "omega p = 1"
    "0 \<le> jj" "jj < ny p" "0 \<le> ii" "ii < nx p" "is_open p (obstacles32 m) jj ii"
    "propagate_cell32 p (cells32 m) jj ii = Some pr"
  shows "next_cell32 p m jj ii = Some (relax32 p pr (equilibrium32 pr)) \<and>
     (\<forall>d x y. d < 9 \<and> pr ! d = Fin x \<and> equilibrium32 pr ! d = Fin y \<and> fl (y - x) = Fin (y - x) \<longrightarrow>
        relax32 p pr (equilibrium32 pr) ! d = equilibrium32 pr ! d) \<and>
     (\<forall>d x y. d < 9 \<and> pr ! d = Fin x \<and> fl x = Fin x \<and> equilibrium32 pr ! d = Fin y \<and>
        x / 2 \<le> y \<and> y \<le> 2 * x \<longrightarrow>
        relax32 p pr (equilibrium32 pr) ! d = equilibrium32 pr ! d)"
proof -
  have wf: "wf_grid32 p (cells32 m)" using assms(1) by (simp add: wf_state32_def)
  have pr: "pr = streamed32 p (cells32 m) jj ii"
    using propagate_cell32_streamed [OF wf assms(5,6,3,4)] assms(8) by simp
  have a: "next_cell32 p m jj ii = Some (relax32 p pr (equilibrium32 pr))"
    unfolding pr by (rule next_cell32_open [OF assms(1,3-7)])
  have b: "relax32 p pr (equilibrium32 pr) ! d = equilibrium32 pr ! d"
    if d: "d < 9" and x: "pr ! d = Fin x" and y: "equilibrium32 pr ! d = Fin y"
      and e: "fl (y - x) = Fin (y - x)" for d x y
  proof -
    have r: "fl y = Fin y"
      using d_equ32_repr [OF d] y unfolding equilibrium32_def by blast
    have "relax32 p pr (equilibrium32 pr) ! d = relax_dir32 p (Fin x) (Fin y)"
      using relax32_nth [OF d] x y by simp
    also have "\<dots> = Fin y" by (rule relax_dir32_exact [OF assms(2) e r])
    finally show ?thesis using y by simp
  qed
  have c: "relax32 p pr (equilibrium32 pr) ! d = equilibrium32 pr ! d"
    if d: "d < 9" and x: "pr ! d = Fin x" "fl x = Fin x" and y: "equilibrium32 pr ! d = Fin y"
      and h: "x / 2 \<le> y" "y \<le> 2 * x" for d x y
  proof -
    have r: "fl y = Fin y"
      using d_equ32_repr [OF d] y unfolding equilibrium32_def by blast
    show ?thesis using b [OF d x(1) y fl_diff_exact [OF x(2) r h]] .
  qed
  show ?thesis using a b c by blast
qed

theorem C6_omega_one_exact_witness:
  "wf_state32 ex_param ex_open32 \<and> omega ex_param = 1 \<and> is_open ex_param (obstacles32 ex_open32) 1 0 \<and>
   propagate_cell32 ex_param (cells32 ex_open32) 1 0 =
     Some [Fin 1, Fin 1, Fin 1, Fin 1, Fin 1, Fin 1, Fin 1, Fin 1, Fin 1] \<and>
   equilibrium32 [Fin 1, Fin 1, Fin 1, Fin 1, Fin 1, Fin 1, Fin 1, Fin 1, Fin 1] ! 0 = Fin 4 \<and>
   fl (4 - 1) = Fin (4 - 1) \<and>
   equilibrium32 [Fin 1, Fin 1, Fin 1, Fin 1, Fin 1, Fin 1, Fin 1, Fin 1, Fin 1] ! 1 = Fin 1 \<and>
   fl 1 = Fin 1 \<and> (1::real) / 2 \<le> 1 \<and> (1::real) \<le> 2 * 1 \<and>
   next_cell32 ex_param ex_open32 1 0 =
     Some (relax32 ex_param [Fin 1, Fin 1, Fin 1, Fin 1, Fin 1, Fin 1, Fin 1, Fin 1, Fin 1]
       (equilibrium32 [Fin 1, Fin 1, Fin 1, Fin 1, Fin 1, Fin 1, Fin 1, Fin 1, Fin 1])) \<and>
   relax32 ex_param [Fin 1, Fin 1, Fin 1, Fin 1, Fin 1, Fin 1, Fin 1, Fin 1, Fin 1]
       (equilibrium32 [Fin 1, Fin 1, Fin 1, Fin 1, Fin 1, Fin 1, Fin 1, Fin 1, Fin 1]) ! 0 = Fin 4 \<and>
   relax32 ex_param [Fin 1, Fin 1, Fin 1, Fin 1, Fin 1, Fin 1, Fin 1, Fin 1, Fin 1]
       (equilibrium32 [Fin 1, Fin 1, Fin 1, Fin 1, Fin 1, Fin 1, Fin 1, Fin 1, Fin 1]) ! 1 = Fin 1"
proof -
  let ?pr = "[Fin 1, Fin 1, Fin 1, Fin 1, Fin 1, Fin 1, Fin 1, Fin 1, Fin 1]"
  have r: "omega ex_param = 1" "0 \<le> (1::int)" "1 < ny ex_param" "0 \<le> (0::int)" "0 < nx ex_param"
    "is_open ex_param (obstacles32 ex_open32) 1 0"
    by (simp_all add: ex_param_def ex_open32_def is_open_def row_index_def)
  have pc: "propagate_cell32 ex_param (cells32 ex_open32) 1 0 = Some ?pr"
    by (simp add: propagate_cell32_def ex_param_def ex_open32_def const_grid32_def rd_def)
  have d0: "(0::nat) < 9 \<and> ?pr ! 0 = Fin 1 \<and> equilibrium32 ?pr ! 0 = Fin 4 \<and> fl (4 - 1) = Fin (4 - 1)"
    by (simp add: ones_equ) (simp add: fl_eval)
  have d1: "(1::nat) < 9 \<and> ?pr ! 1 = Fin 1 \<and> fl 1 = Fin 1 \<and> equilibrium32 ?pr ! 1 = Fin 1 \<and>
      (1::real) / 2 \<le> 1 \<and> (1::real) \<le> 2 * 1"
    by (simp add: ones_equ fl_one)
  note c = C6_omega_one_exact [OF ex_open32_wf r(1-6) pc]
  have e0: "relax32 ex_param ?pr (equilibrium32 ?pr) ! 0 = equilibrium32 ?pr ! 0"
    using conjunct1 [OF conjunct2 [OF c]] d0 by blast
  have e1: "relax32 ex_param ?pr (equilibrium32 ?pr) ! 1 = equilibrium32 ?pr ! 1"
    using conjunct2 [OF conjunct2 [OF c]] d1 by blast
  show ?thesis using conjunct1 [OF c] ex_open32_wf r pc d0 d1 e0 e1 by simp
qed

text \<open>C6 as stated fails in the program's arithmetic. With \<open>omega = 1\<close> and the streamed
  values \<open>11, 1, 1000, 1, 1000, 1, 1, 1, 1\<close> of the open cell \<open>(0, 0)\<close> of \<open>ex_round32\<close>, the
  equilibrium value of directions 2 and 4 is \<open>7343673 / 32768\<close> (\<open>0x1.c038e4p+7\<close>), and the
  value written to the next grid is \<open>917959 / 4096\<close> (\<open>0x1.c038e0p+7\<close>), two units in the
  last place below it: the difference \<open>equilibrium(2) - streamed(2)\<close> is rounded, and adding
  \<open>streamed(2)\<close> back does not restore \<open>equilibrium(2)\<close>. The other seven directions are
  written with their equilibrium values.\<close>

theorem C6_counterexample:
  "omega ex_param = 1 \<and> is_open ex_param (obstacles32 ex_round32) 0 0 \<and>
   propagate_cell32 ex_param (cells32 ex_round32) 0 0 =
     Some [Fin 11, Fin 1, Fin 1000, Fin 1, Fin 1000, Fin 1, Fin 1, Fin 1, Fin 1] \<and>
   equilibrium32 [Fin 11, Fin 1, Fin 1000, Fin 1, Fin 1000, Fin 1, Fin 1, Fin 1, Fin 1] =
     [Fin (7343673 / 8192), Fin (7343673 / 32768), Fin (7343673 / 32768), Fin (7343673 / 32768),
      Fin (7343673 / 32768), Fin (7343673 / 131072), Fin (7343673 / 131072),
      Fin (7343673 / 131072), Fin (7343673 / 131072)] \<and>
   next_cell32 ex_param ex_round32 0 0 =
     Some [Fin (7343673 / 8192), Fin (7343673 / 32768), Fin (917959 / 4096), Fin (7343673 / 32768),
      Fin (917959 / 4096), Fin (7343673 / 131072), Fin (7343673 / 131072),
      Fin (7343673 / 131072), Fin (7343673 / 131072)]"
proof -
  have r: "omega ex_param = 1" "0 \<le> (0::int)" "0 < ny ex_param" "0 < nx ex_param"
    "is_open ex_param (obstacles32 ex_round32) 0 0"
    by (simp_all add: ex_param_def ex_round32_def is_open_def row_index_def)
  have pc: "propagate_cell32 ex_param (cells32 ex_round32) 0 0 =
      Some [Fin 11, Fin 1, Fin 1000, Fin 1, Fin 1000, Fin 1, Fin 1, Fin 1, Fin 1]"
    by (simp add: propagate_cell32_def ex_param_def ex_round32_def rd_def)
  show ?thesis
    using next_cell32_open [OF ex_round_wf r(2,3,2,4,5)] r(1,5) pc
    by (simp add: ex_round_streamed ex_round_equ ex_round_relax)
qed

text \<open>C7 (as amended). In binary32 arithmetic, for a well-formed state on a grid of at least
  two rows with at least one open cell: if every value of the grid that \<open>accelerate_flow\<close>
  leaves (the grid the collide step reads) is a binary32 number between 0 and \<open>2^100\<close>, and
  no open cell has local density zero in the collide step, then \<open>timestep\<close> returns a
  finite average velocity, and it is not negative.\<close>

theorem C7_average_finite_nonneg:
  assumes "wf_state32 p m" "2 \<le> ny p" "accelerate_flow32 p m = Some m1"
    "\<exists>jj ii. 0 \<le> jj \<and> jj < ny p \<and> 0 \<le> ii \<and> ii < nx p \<and> is_open p (obstacles32 m) jj ii"
    "grid_bounded32 (cells32 m1)"
    "\<forall>jj ii. 0 \<le> jj \<and> jj < ny p \<and> 0 \<le> ii \<and> ii < nx p \<and> is_open p (obstacles32 m) jj ii \<longrightarrow>
         local_density32 (streamed32 p (cells32 m1) jj ii) \<noteq> Fin 0"
  shows "\<exists>m' v. timestep32 p m = Some (m', Fin v) \<and> 0 \<le> v"
proof -
  let ?cs = "open_cells_from p (obstacles32 m) 0"
  let ?vs = "map (\<lambda>(jj, ii). cell_speed32 (streamed32 p (cells32 m1) jj ii)) ?cs"
  from accelerate_flow32_wf [OF assms(1,2)] assms(3)
  have m1: "wf_state32 p m1" by auto
  then have wf: "wf_grid32 p (cells32 m1)" "0 < nx p" "0 < ny p" by (simp_all add: wf_state32_def)
  have el: "\<forall>v \<in> set ?vs. \<exists>s. v = Fin s \<and> 0 \<le> s \<and> s \<le> 46"
  proof
    fix v assume "v \<in> set ?vs"
    then obtain jj ii where c: "(jj, ii) \<in> set ?cs"
      and v: "v = cell_speed32 (streamed32 p (cells32 m1) jj ii)" by auto
    from c have r: "0 \<le> jj \<and> jj < ny p \<and> 0 \<le> ii \<and> ii < nx p \<and> is_open p (obstacles32 m) jj ii"
      by (simp add: set_open_cells_from)
    have nz: "local_density32 (streamed32 p (cells32 m1) jj ii) \<noteq> Fin 0"
      using assms(6) r by blast
    have b: "\<And>d. d < 9 \<Longrightarrow> bounded32 (streamed32 p (cells32 m1) jj ii ! d)"
      by (rule streamed32_bounded [OF wf(1) assms(5) wf(2,3)])
    from cell_speed32_bound [OF b nz] show "\<exists>s. v = Fin s \<and> 0 \<le> s \<and> s \<le> 46"
      unfolding v by blast
  qed
  have t0: "(0::real) \<le> 0" "(0::real) \<le> 1099511627776" by simp_all
  from foldl_speed32_bounds [OF el t0] obtain t where
    t: "foldl add32 (Fin 0) ?vs = Fin t" "0 \<le> t" "t \<le> 1099511627776" by blast
  from assms(4) obtain jj ii where "(jj, ii) \<in> set ?cs"
    by (auto simp: set_open_cells_from)
  then have "?cs \<noteq> []" by auto
  then have n: "1 \<le> int (length ?cs)" by (cases ?cs) simp_all
  from average32_nonneg [OF t(2,3) n] obtain v where
    v: "div32 (Fin t) (fl (real (length ?cs))) = Fin v" "0 \<le> v" by auto
  from timestep32_result [OF assms(1,2,3)]
  have "map_option snd (timestep32 p m) = Some (Fin v)" by (simp add: t(1) v(1))
  then obtain m' where "timestep32 p m = Some (m', Fin v)" by (cases "timestep32 p m") auto
  then show ?thesis using v(2) by blast
qed

theorem C7_average_finite_nonneg_witness:
  "wf_state32 ex_param ex_open32 \<and> 2 \<le> ny ex_param \<and>
   accelerate_flow32 ex_param ex_open32 = Some ex_open32 \<and>
   is_open ex_param (obstacles32 ex_open32) 0 0 \<and> grid_bounded32 (cells32 ex_open32) \<and>
   local_density32 (streamed32 ex_param (cells32 ex_open32) 0 0) = Fin 9 \<and>
   local_density32 (streamed32 ex_param (cells32 ex_open32) 1 0) = Fin 9 \<and>
   (\<exists>m' v. timestep32 ex_param ex_open32 = Some (m', Fin v) \<and> 0 \<le> v)"
proof -
  have ny: "2 \<le> ny ex_param" by (simp add: ex_param_def)
  have op: "is_open ex_param (obstacles32 ex_open32) 0 0"
    by (simp add: is_open_def row_index_def ex_param_def ex_open32_def)
  have gb: "grid_bounded32 (cells32 ex_open32)"
    by (simp add: grid_bounded32_def bounded32_def ex_open32_def const_grid32_def fl_ex_vals)
  have ld: "local_density32 (streamed32 ex_param (cells32 ex_open32) 0 0) = Fin 9"
    "local_density32 (streamed32 ex_param (cells32 ex_open32) 1 0) = Fin 9"
    by (simp_all add: ex_open32_streamed ones_ld)
  have rng: "(jj = 0 \<or> jj = 1) \<and> ii = 0"
    if "0 \<le> jj \<and> jj < ny ex_param \<and> 0 \<le> ii \<and> ii < nx ex_param" for jj ii
    using that by (simp add: ex_param_def) arith
  have ex: "\<exists>jj ii. 0 \<le> jj \<and> jj < ny ex_param \<and> 0 \<le> ii \<and> ii < nx ex_param \<and>
      is_open ex_param (obstacles32 ex_open32) jj ii"
    using op by (intro exI [of _ 0]) (simp add: ex_param_def)
  have nz: "\<forall>jj ii. 0 \<le> jj \<and> jj < ny ex_param \<and> 0 \<le> ii \<and> ii < nx ex_param \<and>
      is_open ex_param (obstacles32 ex_open32) jj ii \<longrightarrow>
         local_density32 (streamed32 ex_param (cells32 ex_open32) jj ii) \<noteq> Fin 0"
    using ld rng by fastforce
  show ?thesis
    using C7_average_finite_nonneg [OF ex_open32_wf ny ex_open32_accelerate ex gb nz]
      ex_open32_wf ny ex_open32_accelerate op gb ld by simp
qed

text \<open>C7 as stated fails on a grid whose cells are all obstacles: no open cell has density
  zero, there being none, and the returned quotient is \<open>0.f / 0.f\<close>, which is NaN.\<close>

theorem C7_counterexample:
  "open_cells_from ex_param (obstacles32 ex_blocked32) 0 = [] \<and>
   map_option snd (timestep32 ex_param ex_blocked32) = Some NaN"
  by (simp add: open_cells_from_def open_cols_def is_open_def row_index_def upto.simps
     timestep32_def accelerate_flow32_def accelerate_loop32.simps accelerate_cell32_def
     ex_param_def ex_blocked32_def const_grid32_def rd_def wr_def
     stream_collide32_def timestep_jj32.simps timestep_ii32.simps timestep_cell32_def
     propagate_cell32_def rebound_cell32_def fl_ex_vals Let_def)

text \<open>C8. In a well-formed state with at least one open cell, no open cell of density zero,
  and \<open>omega\<close> neither 0 nor 2 (so that neither division is by zero), \<open>av_velocity\<close> returns
  the mean over the open cells of \<open>sqrt (u_x\<^sup>2 + u_y\<^sup>2)\<close>, computed from the values stored in
  the grid by the density and velocity functions of the collide step, and \<open>calc_reynolds\<close>
  returns that average times \<open>reynolds_dim\<close> divided by the viscosity
  \<open>1/6 * (2 / omega - 1)\<close>.\<close>

theorem C8_reynolds:
  assumes "wf_state p m" "omega p \<noteq> 0" "omega p \<noteq> 2"
    "\<exists>jj ii. 0 \<le> jj \<and> jj < ny p \<and> 0 \<le> ii \<and> ii < nx p \<and> is_open p (obstacles m) jj ii"
    "\<forall>jj ii. 0 \<le> jj \<and> jj < ny p \<and> 0 \<le> ii \<and> ii < nx p \<and> is_open p (obstacles m) jj ii \<longrightarrow>
        local_density (cell_at (cells m) (row_index p jj ii)) \<noteq> 0"
  shows "av_velocity p m = Some (Some (mean_speed p m)) \<and>
    calc_reynolds p m =
      Some (Some (mean_speed p m * real_of_int (reynolds_dim p) / (1 / 6 * (2 / omega p - 1))))"
proof -
  from av_velocity_loops_result [OF assms(1,5)] obtain st where
    st: "av_velocity_loops p m = Some st"
      "tot_cells st = int (length (open_cells_from p (obstacles m) 0))"
      "tot_u st = sum_list (map (\<lambda>(jj, ii). cell_speed (cell_at (cells m) (row_index p jj ii)))
                       (open_cells_from p (obstacles m) 0))"
    by blast
  have "open_cells_from p (obstacles m) 0 \<noteq> []"
  proof -
    from assms(4) obtain jj ii where "(jj, ii) \<in> set (open_cells_from p (obstacles m) 0)"
      by (auto simp: set_open_cells_from)
    then show ?thesis by auto
  qed
  then have pos: "tot_cells st \<noteq> 0" using st(2) by simp
  have av: "av_velocity p m = Some (Some (mean_speed p m))"
    using st pos by (simp add: av_velocity_def fdiv_def mean_speed_def)
  have visc: "1 / 6 * (2 / omega p - 1) \<noteq> 0" using assms(2,3) by (simp add: field_simps)
  show ?thesis
    using av assms(2) visc by (simp add: calc_reynolds_def fdiv_def Let_def)
qed

theorem C8_reynolds_witness:
  "wf_state ex_param ex_flow \<and> omega ex_param \<noteq> 0 \<and> omega ex_param \<noteq> 2 \<and>
   is_open ex_param (obstacles ex_flow) 0 0 \<and>
   open_cells_from ex_param (obstacles ex_flow) 0 = [(0, 0)] \<and>
   local_density (cell_at (cells ex_flow) (row_index ex_param 0 0)) = 10 \<and>
   mean_speed ex_param ex_flow = 1 / 2 \<and>
   av_velocity ex_param ex_flow = Some (Some (1 / 2)) \<and>
   calc_reynolds ex_param ex_flow = Some (Some 3)"
proof -
  have wf: "wf_state ex_param ex_flow"
    by (simp add: wf_state_def wf_grid_def ex_param_def ex_flow_def const_grid_def)
  have om: "omega ex_param \<noteq> 0" "omega ex_param \<noteq> 2" by (simp_all add: ex_param_def)
  have op: "is_open ex_param (obstacles ex_flow) 0 0" "\<not> is_open ex_param (obstacles ex_flow) 1 0"
    by (simp_all add: is_open_def row_index_def ex_param_def ex_flow_def)
  have oc: "open_cells_from ex_param (obstacles ex_flow) 0 = [(0, 0)]"
    by (simp add: open_cells_from_def open_cols_def is_open_def row_index_def upto.simps
        ex_param_def ex_flow_def)
  have ld: "local_density (cell_at (cells ex_flow) (row_index ex_param 0 0)) = 10"
    by (simp add: local_density_def cell_at_def row_index_def ex_param_def ex_flow_def)
  have sq: "sqrt (1 / 4) = 1 / 2"
    by (simp add: real_sqrt_divide)
  have usq: "u_sq (3 / 10) (4 / 10) = 1 / 4" by (simp add: u_sq_def)
  have ux: "u_x (cell_at (cells ex_flow) (row_index ex_param 0 0)) = Some (3 / 10)"
    and uy: "u_y (cell_at (cells ex_flow) (row_index ex_param 0 0)) = Some (4 / 10)"
    by (simp_all add: u_x_def u_y_def fdiv_def local_density_def cell_at_def row_index_def
        ex_param_def ex_flow_def)
  have sp: "cell_speed (cell_at (cells ex_flow) (row_index ex_param 0 0)) = 1 / 2"
    by (simp only: cell_speed_def ux uy option.sel usq sq)
  have ms: "mean_speed ex_param ex_flow = 1 / 2"
    using sp by (simp add: mean_speed_def oc)
  have rng: "(jj = 0 \<or> jj = 1) \<and> ii = 0"
    if "0 \<le> jj \<and> jj < ny ex_param \<and> 0 \<le> ii \<and> ii < nx ex_param" for jj ii
    using that by (simp add: ex_param_def) arith
  have ex: "\<exists>jj ii. 0 \<le> jj \<and> jj < ny ex_param \<and> 0 \<le> ii \<and> ii < nx ex_param \<and>
      is_open ex_param (obstacles ex_flow) jj ii"
    using op(1) by (intro exI [of _ 0]) (simp add: ex_param_def)
  have nz: "\<forall>jj ii. 0 \<le> jj \<and> jj < ny ex_param \<and> 0 \<le> ii \<and> ii < nx ex_param \<and>
      is_open ex_param (obstacles ex_flow) jj ii \<longrightarrow>
        local_density (cell_at (cells ex_flow) (row_index ex_param jj ii)) \<noteq> 0"
    using ld op rng by fastforce
  show ?thesis
    using C8_reynolds [OF wf om ex nz] wf om op(1) oc ld ms
    by (simp add: ex_param_def)
qed

text \<open>C9. \<open>accelerate_flow\<close> leaves the obstacle mask and the scratch grid as they are, and
  in the current grid the arrays of the rest, north and south directions (\<open>s0\<close>, \<open>s2\<close>,
  \<open>s4\<close>); all nine values are unchanged at every index that is not a cell of row \<open>ny - 2\<close>
  passing the guard.\<close>

theorem C9_accelerate_frame:
  assumes "wf_state p m" "2 \<le> ny p"
  shows "\<exists>m'. accelerate_flow p m = Some m' \<and> obstacles m' = obstacles m \<and>
      tmp_cells m' = tmp_cells m \<and>
      s0 (cells m') = s0 (cells m) \<and> s2 (cells m') = s2 (cells m) \<and> s4 (cells m') = s4 (cells m) \<and>
      (\<forall>k. (\<forall>ii. 0 \<le> ii \<and> ii < nx p \<and> accel_guard p m (row_index p (ny p - 2) ii) \<longrightarrow>
               k \<noteq> row_index p (ny p - 2) ii) \<longrightarrow>
           cell_at (cells m') k = cell_at (cells m) k)"
proof -
  let ?R = "row_index p (ny p - 2)"
  have wf: "wf_grid p (cells m)" using assms(1) by (simp add: wf_state_def)
  from accelerate_flow_result [OF assms]
  obtain m' where m': "accelerate_flow p m = Some m'" "tmp_cells m' = tmp_cells m"
      "obstacles m' = obstacles m" "wf_state p m'"
      and row: "\<And>ii. 0 \<le> ii \<Longrightarrow> ii < nx p \<Longrightarrow>
         cell_at (cells m') (?R ii) =
           (if accel_guard p m (?R ii) then cell_at (accel_apply p (cells m) (?R ii)) (?R ii)
            else cell_at (cells m) (?R ii))"
      and frame: "\<And>k. (\<forall>ii. 0 \<le> ii \<and> ii < nx p \<longrightarrow> k \<noteq> ?R ii) \<Longrightarrow>
         cell_at (cells m') k = cell_at (cells m) k"
    by blast
  have wf': "wf_grid p (cells m')" using m'(4) by (simp add: wf_state_def)
  have kb: "int (?R ii) < nx p * ny p" if "0 \<le> ii" "ii < nx p" for ii
    using idx_bounds [of ii "nx p" "ny p - 2" "ny p"] that assms(2) by (simp add: row_index_def)
  have pt: "s0 (cells m') ! k = s0 (cells m) ! k \<and> s2 (cells m') ! k = s2 (cells m) ! k \<and>
      s4 (cells m') ! k = s4 (cells m) ! k" for k
  proof (cases "\<exists>ii. 0 \<le> ii \<and> ii < nx p \<and> k = ?R ii")
    case True
    then obtain ii where ii: "0 \<le> ii" "ii < nx p" "k = ?R ii" by blast
    show ?thesis
      using row [OF ii(1,2)] cell_at_accel_apply [OF wf kb [OF ii(1,2)], of k] ii(3)
      by (simp add: cell_at_def split: if_splits)
  next
    case False
    then have "cell_at (cells m') k = cell_at (cells m) k" using frame [of k] by blast
    then show ?thesis by (simp add: cell_at_def)
  qed
  have eq: "s0 (cells m') = s0 (cells m)" "s2 (cells m') = s2 (cells m)" "s4 (cells m') = s4 (cells m)"
  proof -
    show "s0 (cells m') = s0 (cells m)"
      by (rule nth_eq_lists [OF same_length [OF wf_grid_len(1) [OF wf] wf_grid_len(1) [OF wf']]])
        (simp add: pt)
    show "s2 (cells m') = s2 (cells m)"
      by (rule nth_eq_lists [OF same_length [OF wf_grid_len(3) [OF wf] wf_grid_len(3) [OF wf']]])
        (simp add: pt)
    show "s4 (cells m') = s4 (cells m)"
      by (rule nth_eq_lists [OF same_length [OF wf_grid_len(5) [OF wf] wf_grid_len(5) [OF wf']]])
        (simp add: pt)
  qed
  have fr: "cell_at (cells m') k = cell_at (cells m) k"
    if k: "\<forall>ii. 0 \<le> ii \<and> ii < nx p \<and> accel_guard p m (?R ii) \<longrightarrow> k \<noteq> ?R ii" for k
  proof (cases "\<exists>ii. 0 \<le> ii \<and> ii < nx p \<and> k = ?R ii")
    case True
    then obtain ii where ii: "0 \<le> ii" "ii < nx p" "k = ?R ii" by blast
    then have "\<not> accel_guard p m (?R ii)" using k by blast
    then show ?thesis using row [OF ii(1,2)] ii(3) by simp
  next
    case False
    then show ?thesis using frame [of k] by blast
  qed
  show ?thesis using m'(1,2,3) eq fr by blast
qed

theorem C9_accelerate_frame_witness:
  "wf_state ex_param_half ex_open \<and>
   (\<exists>m'. accelerate_flow ex_param_half ex_open = Some m' \<and> obstacles m' = [0, 0] \<and>
      tmp_cells m' = const_grid 7 \<and>
      s0 (cells m') = [1, 1] \<and> s2 (cells m') = [1, 1] \<and> s4 (cells m') = [1, 1] \<and>
      cell_at (cells m') 1 = [1, 1, 1, 1, 1, 1, 1, 1, 1])"
proof -
  have wf: "wf_state ex_param_half ex_open"
    by (simp add: wf_state_def wf_grid_def ex_param_half_def ex_open_def const_grid_def)
  have r: "2 \<le> ny ex_param_half" by (simp add: ex_param_half_def)
  have k: "\<forall>ii. 0 \<le> ii \<and> ii < nx ex_param_half \<and>
      accel_guard ex_param_half ex_open (row_index ex_param_half (ny ex_param_half - 2) ii) \<longrightarrow>
        1 \<noteq> row_index ex_param_half (ny ex_param_half - 2) ii"
    by (simp add: ex_param_half_def row_index_def)
  from C9_accelerate_frame [OF wf r] obtain m' where
    m': "accelerate_flow ex_param_half ex_open = Some m'" "obstacles m' = obstacles ex_open"
      "tmp_cells m' = tmp_cells ex_open" "s0 (cells m') = s0 (cells ex_open)"
      "s2 (cells m') = s2 (cells ex_open)" "s4 (cells m') = s4 (cells ex_open)"
      "\<forall>k. (\<forall>ii. 0 \<le> ii \<and> ii < nx ex_param_half \<and>
          accel_guard ex_param_half ex_open (row_index ex_param_half (ny ex_param_half - 2) ii) \<longrightarrow>
               k \<noteq> row_index ex_param_half (ny ex_param_half - 2) ii) \<longrightarrow>
           cell_at (cells m') k = cell_at (cells ex_open) k"
    by blast
  from m'(7) k have "cell_at (cells m') 1 = cell_at (cells ex_open) 1" by blast
  then show ?thesis using wf m'(1-6)
    by (simp add: ex_open_def const_grid_def cell_at_def)
qed

text \<open>C10. In a well-formed state with at least two rows whose obstacle mask blocks every
  cell, the stream-collide pass of \<open>timestep\<close> and the loops of \<open>av_velocity\<close> both end with
  the open-cell counter and the velocity sum at zero, and both functions return the
  quotient 0/0, which is not a finite number: neither function guards against an empty
  set of open cells.\<close>

theorem C10_all_blocked:
  assumes "wf_state p m" "2 \<le> ny p" "\<forall>k < length (obstacles m). obstacles m ! k \<noteq> 0"
  shows "(\<exists>m1 st. accelerate_flow p m = Some m1 \<and> stream_collide p m1 = Some st \<and>
            tot_cells st = 0 \<and> tot_u st = 0 \<and> timestep p m = Some (mem st, None)) \<and>
         (\<exists>st. av_velocity_loops p m = Some st \<and> tot_cells st = 0 \<and> tot_u st = 0 \<and>
            av_velocity p m = Some None)"
proof -
  have nx: "0 < nx p" and len: "int (length (obstacles m)) = nx p * ny p"
    using assms(1) by (simp_all add: wf_state_def)
  note no = all_blocked_no_open [OF nx len assms(3)]
  have closed: "\<not> is_open p (obstacles m) jj ii"
    if "0 \<le> jj \<and> jj < ny p \<and> 0 \<le> ii \<and> ii < nx p" for jj ii
  proof
    assume "is_open p (obstacles m) jj ii"
    then have "(jj, ii) \<in> set (open_cells_from p (obstacles m) 0)"
      using that by (simp add: set_open_cells_from)
    then show False using no by simp
  qed
  from accelerate_flow_result [OF assms(1,2)] obtain m1 where
    m1: "accelerate_flow p m = Some m1" "wf_state p m1" "obstacles m1 = obstacles m" by blast
  have nz: "\<forall>jj ii. 0 \<le> jj \<and> jj < ny p \<and> 0 \<le> ii \<and> ii < nx p \<and> is_open p (obstacles m1) jj ii \<longrightarrow>
         local_density (streamed p (cells m1) jj ii) \<noteq> 0"
    using closed m1(3) by auto
  from stream_collide_Some [OF m1(2) nz] obtain st where st: "stream_collide p m1 = Some st" ..
  from stream_collide_result [OF m1(2) st] no m1(3)
  have z: "tot_cells st = 0" "tot_u st = 0" by simp_all
  have ts: "timestep p m = Some (mem st, None)"
    using m1(1) st z by (simp add: timestep_def fdiv_def)
  have nz2: "\<forall>jj ii. 0 \<le> jj \<and> jj < ny p \<and> 0 \<le> ii \<and> ii < nx p \<and> is_open p (obstacles m) jj ii \<longrightarrow>
        local_density (cell_at (cells m) (row_index p jj ii)) \<noteq> 0"
    using closed by auto
  from av_velocity_loops_result [OF assms(1) nz2] no obtain st2 where
    st2: "av_velocity_loops p m = Some st2" "tot_cells st2 = 0" "tot_u st2 = 0" by auto
  have av: "av_velocity p m = Some None"
    using st2 by (simp add: av_velocity_def fdiv_def)
  show ?thesis using m1(1) st z ts st2 av by blast
qed

theorem C10_all_blocked_witness:
  "wf_state ex_param ex_blocked \<and> 2 \<le> ny ex_param \<and> obstacles ex_blocked = [1, 1] \<and>
   (\<exists>m'. timestep ex_param ex_blocked = Some (m', None)) \<and>
   av_velocity ex_param ex_blocked = Some None"
proof -
  have wf: "wf_state ex_param ex_blocked"
    by (simp add: wf_state_def wf_grid_def ex_param_def ex_blocked_def const_grid_def)
  have ny: "2 \<le> ny ex_param" by (simp add: ex_param_def)
  have bl: "\<forall>k < length (obstacles ex_blocked). obstacles ex_blocked ! k \<noteq> 0"
    by (simp add: ex_blocked_def nth_Cons')
  show ?thesis
    using C10_all_blocked [OF wf ny bl] wf ny by (auto simp: ex_blocked_def)
qed

end
